theory Spec2Isabelle
  imports Complex_Main
begin

section \<open>Library behaviour the shop relies on\<close>

text \<open>
  \<^verbatim>\<open>shop.py\<close> keeps its two stores in \<^verbatim>\<open>inventory.csv\<close> and \<^verbatim>\<open>sales.csv\<close>
  through Python's \<^verbatim>\<open>csv\<close> module, \<^verbatim>\<open>open\<close>, \<^verbatim>\<open>str\<close>, \<^verbatim>\<open>int\<close> and
  \<^verbatim>\<open>float\<close>. Files are modelled as the text they hold; this section gives the library
  functions the text passes through, as CPython documents them.
\<close>

abbreviation CR :: char where "CR \<equiv> CHR 0x0D"
abbreviation LF :: char where "LF \<equiv> CHR 0x0A"
abbreviation DQUOTE :: char where "DQUOTE \<equiv> CHR 0x22"
abbreviation COMMA :: char where "COMMA \<equiv> CHR 0x2C"

subsection \<open>\<^verbatim>\<open>csv.writer\<close>, excel dialect, \<^verbatim>\<open>QUOTE_MINIMAL\<close>\<close>

text \<open>A field is quoted when it holds the delimiter, the quote character or a character of
  the line terminator; a quote inside a quoted field is doubled.\<close>

definition needs_quoting :: "string \<Rightarrow> bool" where
  "needs_quoting f = (COMMA \<in> set f \<or> DQUOTE \<in> set f \<or> CR \<in> set f \<or> LF \<in> set f)"

fun double_quotes :: "string \<Rightarrow> string" where
  "double_quotes [] = []"
| "double_quotes (c # cs) = (if c = DQUOTE then DQUOTE # DQUOTE # double_quotes cs
                             else c # double_quotes cs)"

definition write_field :: "string \<Rightarrow> string" where
  "write_field f = (if needs_quoting f then DQUOTE # double_quotes f @ [DQUOTE] else f)"

fun join_fields :: "string list \<Rightarrow> string" where
  "join_fields [] = []"
| "join_fields [f] = write_field f"
| "join_fields (f # g # fs) = write_field f @ COMMA # join_fields (g # fs)"

text \<open>A record made of one empty field is written as a pair of quotes; every record ends
  with the line terminator \<^verbatim>\<open>\r\n\<close>.\<close>

definition writerow :: "string list \<Rightarrow> string" where
  "writerow fs = (if fs = [[]] then [DQUOTE, DQUOTE] else join_fields fs) @ [CR, LF]"

text \<open>\<^verbatim>\<open>DictWriter\<close>: \<^verbatim>\<open>writeheader()\<close> then one \<^verbatim>\<open>writerow\<close> per record, the cells
  in the order of \<^verbatim>\<open>fieldnames\<close>. Both stores are opened for writing with
  \<^verbatim>\<open>newline=""\<close>, so the text reaches the file as written.\<close>

definition DictWriter :: "string list \<Rightarrow> string list list \<Rightarrow> string" where
  "DictWriter fieldnames rows = concat (map writerow (fieldnames # rows))"

subsection \<open>\<^verbatim>\<open>open(path, "r")\<close>: universal newlines\<close>

text \<open>Both stores are opened for reading without \<^verbatim>\<open>newline=""\<close>: on input
  \<^verbatim>\<open>\r\n\<close> and a lone \<^verbatim>\<open>\r\<close> are both delivered as \<^verbatim>\<open>\n\<close>.\<close>

fun universal_newlines :: "string \<Rightarrow> string" where
  "universal_newlines [] = []"
| "universal_newlines [c] = [if c = CR then LF else c]"
| "universal_newlines (c # d # cs) =
     (if c = CR then (if d = LF then LF # universal_newlines cs
                      else LF # universal_newlines (d # cs))
      else c # universal_newlines (d # cs))"

subsection \<open>\<^verbatim>\<open>csv.reader\<close>, excel dialect, not strict\<close>

text \<open>The reader's state machine, run over the whole text: \<open>fs\<close> are the fields of the
  record being read, \<open>f\<close> the field being read. A line feed ends the record except inside
  quotes; at the end of the text a record that has been started is delivered. The text the
  reader receives has been through \<^const>\<open>universal_newlines\<close> and holds no carriage
  return.\<close>

datatype reader_state = START_RECORD | START_FIELD | IN_FIELD | IN_QUOTED_FIELD
  | QUOTE_IN_QUOTED_FIELD

fun reader :: "reader_state \<Rightarrow> string list \<Rightarrow> string \<Rightarrow> string \<Rightarrow> string list list" where
  "reader st fs f [] = (if st = START_RECORD then [] else [fs @ [f]])"
| "reader START_RECORD fs f (c # cs) =
     (if c = LF then [] # reader START_RECORD [] [] cs
      else if c = DQUOTE then reader IN_QUOTED_FIELD fs f cs
      else if c = COMMA then reader START_FIELD (fs @ [f]) [] cs
      else reader IN_FIELD fs (f @ [c]) cs)"
| "reader START_FIELD fs f (c # cs) =
     (if c = LF then (fs @ [f]) # reader START_RECORD [] [] cs
      else if c = DQUOTE then reader IN_QUOTED_FIELD fs f cs
      else if c = COMMA then reader START_FIELD (fs @ [f]) [] cs
      else reader IN_FIELD fs (f @ [c]) cs)"
| "reader IN_FIELD fs f (c # cs) =
     (if c = LF then (fs @ [f]) # reader START_RECORD [] [] cs
      else if c = COMMA then reader START_FIELD (fs @ [f]) [] cs
      else reader IN_FIELD fs (f @ [c]) cs)"
| "reader IN_QUOTED_FIELD fs f (c # cs) =
     (if c = DQUOTE then reader QUOTE_IN_QUOTED_FIELD fs f cs
      else reader IN_QUOTED_FIELD fs (f @ [c]) cs)"
| "reader QUOTE_IN_QUOTED_FIELD fs f (c # cs) =
     (if c = DQUOTE then reader IN_QUOTED_FIELD fs (f @ [c]) cs
      else if c = COMMA then reader START_FIELD (fs @ [f]) [] cs
      else if c = LF then (fs @ [f]) # reader START_RECORD [] [] cs
      else reader IN_FIELD fs (f @ [c]) cs)"

definition read_text :: "string \<Rightarrow> string list list" where
  "read_text t = reader START_RECORD [] [] (universal_newlines t)"

text \<open>\<^verbatim>\<open>DictReader\<close> takes the first record as the column names and skips empty
  records after it. A stored file begins with the header its writer puts there; a file with
  any other first record is reported as \<open>None\<close> and left outside the model (Python would
  look the cells up by the names it finds). Cells are then read by position: a record
  shorter than the header has \<^verbatim>\<open>None\<close> in its missing cells.\<close>

definition DictReader :: "string list \<Rightarrow> string \<Rightarrow> string list list option" where
  "DictReader fieldnames t =
     (case read_text t of
        [] \<Rightarrow> Some []
      | header # records \<Rightarrow>
          if header = fieldnames then Some (filter (\<lambda>r. r \<noteq> []) records) else None)"

definition cell :: "string list \<Rightarrow> nat \<Rightarrow> string option" where
  "cell row i = (if i < length row then Some (row ! i) else None)"

subsection \<open>\<^verbatim>\<open>str\<close> and \<^verbatim>\<open>int\<close> on integers\<close>

fun digits :: "nat \<Rightarrow> string" where
  "digits n = (if n < 10 then [char_of (48 + n)]
               else digits (n div 10) @ [char_of (48 + n mod 10)])"

declare digits.simps [simp del]

definition str_int :: "int \<Rightarrow> string" where
  "str_int n = (if n < 0 then CHR ''-'' # digits (nat (- n)) else digits (nat n))"

definition is_digit :: "char \<Rightarrow> bool" where
  "is_digit c = (48 \<le> (of_char c :: nat) \<and> (of_char c :: nat) \<le> 57)"

text \<open>The blanks \<^verbatim>\<open>int\<close> strips from both ends of its text. A character is a code point
  below 256: of these \<^verbatim>\<open>int\<close> strips the tab, the line feed, the vertical tab, the form
  feed, the carriage return, the space, the next-line control (0x85) and the no-break space
  (0xA0). The separators 28 to 31 are blanks for \<^verbatim>\<open>str.isspace\<close> but not for \<^verbatim>\<open>int\<close>.\<close>

definition is_space :: "char \<Rightarrow> bool" where
  "is_space c = (let n = (of_char c :: nat) in (9 \<le> n \<and> n \<le> 13) \<or> n = 32 \<or> n = 133 \<or> n = 160)"

definition strip :: "string \<Rightarrow> string" where
  "strip s = rev (dropWhile is_space (rev (dropWhile is_space s)))"

text \<open>Decimal digits, a single underscore allowed between two digits.\<close>

fun digits_value :: "nat \<Rightarrow> string \<Rightarrow> nat option" where
  "digits_value acc [] = Some acc"
| "digits_value acc (c # cs) =
     (if is_digit c then digits_value (10 * acc + (of_char c - 48)) cs
      else if c = CHR ''_'' \<and> cs \<noteq> [] \<and> is_digit (hd cs) then digits_value acc cs
      else None)"

definition unsigned_value :: "string \<Rightarrow> nat option" where
  "unsigned_value s = (case s of [] \<Rightarrow> None
     | c # cs \<Rightarrow> if is_digit c then digits_value 0 s else None)"

text \<open>\<^verbatim>\<open>int(s)\<close> on text: \<open>None\<close> is \<^verbatim>\<open>ValueError\<close>. The blanks at both ends are
  stripped, then comes an optional sign and the decimal digits. (Characters above 255, among
  them the decimal digits of other scripts, and the interpreter's limit on the number of
  digits are not modelled.)\<close>

definition int_of_str :: "string \<Rightarrow> int option" where
  "int_of_str s =
     (case strip s of
        [] \<Rightarrow> None
      | c # cs \<Rightarrow>
          if c = CHR ''-'' then map_option (\<lambda>n. - int n) (unsigned_value cs)
          else if c = CHR ''+'' then map_option int (unsigned_value cs)
          else map_option int (unsigned_value (c # cs)))"

subsection \<open>\<^verbatim>\<open>str\<close> and \<^verbatim>\<open>float\<close> on prices\<close>

text \<open>Prices are Python floats. They are modelled as reals with exact multiplication:
  binary64 rounding is not modelled. The text form of a float (\<^verbatim>\<open>repr\<close>) and its parser
  are parameters of the model; \<open>None\<close> from the parser is \<^verbatim>\<open>ValueError\<close>.\<close>

record floats =
  str_float :: "real \<Rightarrow> string"
  float_of_str :: "string \<Rightarrow> real option"

section \<open>The shop\<close>

subsection \<open>State\<close>

text \<open>\<^verbatim>\<open>Product\<close> objects are shared between the inventory and the sales that sold
  them, and \<^verbatim>\<open>update_quantity\<close> mutates them in place. They live in a store, a list
  indexed by reference; a constructor call appends to it.\<close>

type_synonym ref = nat

record product =
  product_id :: string
  name :: string
  price :: real
  quantity :: int

record sale =
  sale_id :: string
  products_sold :: "(ref \<times> int) list"

datatype error = TypeError | ValueError | ForeignHeader

text \<open>\<open>products\<close> is \<^verbatim>\<open>Inventory.products\<close>, a dict in insertion order; \<open>sales\<close> is
  \<^verbatim>\<open>SalesManager.sales\<close>; the two files hold \<open>None\<close> while they do not exist.\<close>

record shop =
  heap :: "product list"
  products :: "(string \<times> ref) list"
  sales :: "sale list"
  inventory_csv :: "string option"
  sales_csv :: "string option"

text \<open>\<^verbatim>\<open>d[k] = v\<close>: an existing key keeps its place, a new key goes last.\<close>

fun dict_set :: "('k \<times> 'v) list \<Rightarrow> 'k \<Rightarrow> 'v \<Rightarrow> ('k \<times> 'v) list" where
  "dict_set [] k v = [(k, v)]"
| "dict_set ((k', v') # d) k v = (if k' = k then (k, v) # d else (k', v') # dict_set d k v)"

subsection \<open>\<^verbatim>\<open>Product\<close>\<close>

definition new_Product :: "product \<Rightarrow> shop \<Rightarrow> ref \<times> shop" where
  "new_Product p s = (length (heap s), s\<lparr>heap := heap s @ [p]\<rparr>)"

definition update_quantity :: "product \<Rightarrow> int \<Rightarrow> product \<times> bool" where
  "update_quantity p quantity_sold =
     (if quantity_sold > quantity p then (p, False)
      else (p\<lparr>quantity := quantity p - quantity_sold\<rparr>, True))"

definition Product_to_dict :: "product \<Rightarrow> string \<times> string \<times> real \<times> int" where
  "Product_to_dict p = (product_id p, name p, price p, quantity p)"

subsection \<open>\<^verbatim>\<open>Inventory\<close>\<close>

definition inventory_fieldnames :: "string list" where
  "inventory_fieldnames = [''product_id'', ''product_name'', ''price'', ''quantity'']"

definition inventory_row :: "floats \<Rightarrow> product \<Rightarrow> string list" where
  "inventory_row F p = [product_id p, name p, str_float F (price p), str_int (quantity p)]"

definition Inventory_save_to_file :: "floats \<Rightarrow> shop \<Rightarrow> shop" where
  "Inventory_save_to_file F s =
     s\<lparr>inventory_csv := Some (DictWriter inventory_fieldnames
          (map (\<lambda>(k, r). inventory_row F (heap s ! r)) (products s)))\<rparr>"

definition Inventory_add_product :: "floats \<Rightarrow> ref \<Rightarrow> shop \<Rightarrow> shop" where
  "Inventory_add_product F r s =
     Inventory_save_to_file F (s\<lparr>products := dict_set (products s) (product_id (heap s ! r)) r\<rparr>)"

definition view_inventory :: "shop \<Rightarrow> (string \<times> string \<times> real \<times> int) list" where
  "view_inventory s = map (\<lambda>(k, r). Product_to_dict (heap s ! r)) (products s)"

definition update_product :: "string \<Rightarrow> int \<Rightarrow> shop \<Rightarrow> shop \<times> bool" where
  "update_product pid quantity_sold s =
     (case map_of (products s) pid of
        Some r \<Rightarrow>
          (let (p, ok) = update_quantity (heap s ! r) quantity_sold
           in (s\<lparr>heap := (heap s)[r := p]\<rparr>, ok))
      | None \<Rightarrow> (s, False))"

text \<open>The loop of \<^verbatim>\<open>load_from_file\<close>. The arguments of \<^verbatim>\<open>Product(...)\<close> are
  evaluated left to right, so \<^verbatim>\<open>float\<close> fails before \<^verbatim>\<open>int\<close>; an exception leaves the
  products of the earlier rows in place.\<close>

fun load_products :: "floats \<Rightarrow> string list list \<Rightarrow> shop \<Rightarrow> shop \<times> error option" where
  "load_products F [] s = (s, None)"
| "load_products F (row # rows) s =
     (case cell row 2 of None \<Rightarrow> (s, Some TypeError) | Some pc \<Rightarrow>
      case float_of_str F pc of None \<Rightarrow> (s, Some ValueError) | Some pr \<Rightarrow>
      case cell row 3 of None \<Rightarrow> (s, Some TypeError) | Some qc \<Rightarrow>
      case int_of_str qc of None \<Rightarrow> (s, Some ValueError) | Some q \<Rightarrow>
        (let (r, s') = new_Product
               \<lparr>product_id = row ! 0, name = row ! 1, price = pr, quantity = q\<rparr> s
         in load_products F rows (s'\<lparr>products := dict_set (products s') (row ! 0) r\<rparr>)))"

definition Inventory_load_from_file :: "floats \<Rightarrow> shop \<Rightarrow> shop \<times> error option" where
  "Inventory_load_from_file F s =
     (case inventory_csv s of
        None \<Rightarrow> (s, None)
      | Some t \<Rightarrow>
          (case DictReader inventory_fieldnames t of
             None \<Rightarrow> (s, Some ForeignHeader)
           | Some rows \<Rightarrow> load_products F rows s))"

definition Inventory_init :: "floats \<Rightarrow> shop \<Rightarrow> shop \<times> error option" where
  "Inventory_init F s = Inventory_load_from_file F (s\<lparr>products := []\<rparr>)"

subsection \<open>\<^verbatim>\<open>Sale\<close>\<close>

definition Sale :: "string \<Rightarrow> sale" where
  "Sale sid = \<lparr>sale_id = sid, products_sold = []\<rparr>"

definition Sale_add_product :: "ref \<Rightarrow> int \<Rightarrow> sale \<Rightarrow> sale" where
  "Sale_add_product r q sl = sl\<lparr>products_sold := products_sold sl @ [(r, q)]\<rparr>"

definition Sale_to_dict :: "product list \<Rightarrow> sale \<Rightarrow> (string \<times> string \<times> string \<times> int \<times> real) list" where
  "Sale_to_dict h sl =
     map (\<lambda>(r, q). (sale_id sl, product_id (h ! r), name (h ! r), q, price (h ! r) * of_int q))
       (products_sold sl)"

subsection \<open>\<^verbatim>\<open>SalesManager\<close>\<close>

definition sales_fieldnames :: "string list" where
  "sales_fieldnames =
     [''sale_id'', ''product_id'', ''product_name'', ''quantity_sold'', ''total_price'']"

definition view_sales_report :: "shop \<Rightarrow> (string \<times> string \<times> string \<times> int \<times> real) list" where
  "view_sales_report s = concat (map (Sale_to_dict (heap s)) (sales s))"

definition sales_row :: "floats \<Rightarrow> string \<times> string \<times> string \<times> int \<times> real \<Rightarrow> string list" where
  "sales_row F e = (case e of (sid, pid, pname, q, amount) \<Rightarrow>
     [sid, pid, pname, str_int q, str_float F amount])"

definition SalesManager_save_to_file :: "floats \<Rightarrow> shop \<Rightarrow> shop" where
  "SalesManager_save_to_file F s =
     s\<lparr>sales_csv := Some (DictWriter sales_fieldnames (map (sales_row F) (view_sales_report s)))\<rparr>"

definition deduct_item :: "ref \<times> int \<Rightarrow> shop \<Rightarrow> shop" where
  "deduct_item item s =
     (case item of (r, q) \<Rightarrow> fst (update_product (product_id (heap s ! r)) q s))"

definition record_sale :: "floats \<Rightarrow> sale \<Rightarrow> shop \<Rightarrow> shop" where
  "record_sale F sl s =
     (let s1 = fold deduct_item (products_sold sl) s;
          s2 = s1\<lparr>sales := sales s1 @ [sl]\<rparr>
      in SalesManager_save_to_file F s2)"

text \<open>The loop of \<^verbatim>\<open>SalesManager.load_from_file\<close>: a fresh \<^verbatim>\<open>Sale\<close> for every row;
  \<^verbatim>\<open>int\<close> is applied only when the product is found.\<close>

fun load_sales :: "string list list \<Rightarrow> shop \<Rightarrow> shop \<times> error option" where
  "load_sales [] s = (s, None)"
| "load_sales (row # rows) s =
     (let sl = Sale (row ! 0) in
      case (case cell row 1 of None \<Rightarrow> None | Some pid \<Rightarrow> map_of (products s) pid) of
        None \<Rightarrow> load_sales rows (s\<lparr>sales := sales s @ [sl]\<rparr>)
      | Some r \<Rightarrow>
          (case cell row 3 of None \<Rightarrow> (s, Some TypeError) | Some qc \<Rightarrow>
           case int_of_str qc of None \<Rightarrow> (s, Some ValueError) | Some q \<Rightarrow>
             load_sales rows (s\<lparr>sales := sales s @ [Sale_add_product r q sl]\<rparr>)))"

definition SalesManager_load_from_file :: "shop \<Rightarrow> shop \<times> error option" where
  "SalesManager_load_from_file s =
     (case sales_csv s of
        None \<Rightarrow> (s, None)
      | Some t \<Rightarrow>
          (case DictReader sales_fieldnames t of
             None \<Rightarrow> (s, Some ForeignHeader)
           | Some rows \<Rightarrow> load_sales rows s))"

definition SalesManager_init :: "shop \<Rightarrow> shop \<times> error option" where
  "SalesManager_init s = SalesManager_load_from_file (s\<lparr>sales := []\<rparr>)"

subsection \<open>\<^verbatim>\<open>ShopSystem\<close>\<close>

definition ShopSystem_init :: "floats \<Rightarrow> shop \<Rightarrow> shop \<times> error option" where
  "ShopSystem_init F s =
     (case Inventory_init F s of
        (s1, Some e) \<Rightarrow> (s1, Some e)
      | (s1, None) \<Rightarrow> SalesManager_init s1)"

text \<open>\<^verbatim>\<open>add_product\<close>: the four values typed at the prompts, already converted.\<close>

definition add_product :: "floats \<Rightarrow> string \<Rightarrow> string \<Rightarrow> real \<Rightarrow> int \<Rightarrow> shop \<Rightarrow> shop" where
  "add_product F pid nm pr q s =
     (let (r, s') = new_Product \<lparr>product_id = pid, name = nm, price = pr, quantity = q\<rparr> s
      in Inventory_add_product F r s')"

definition ascii_lower :: "char \<Rightarrow> char" where
  "ascii_lower c = (let n = (of_char c :: nat) in if 65 \<le> n \<and> n \<le> 90 then char_of (n + 32) else c)"

text \<open>The loop of \<^verbatim>\<open>process_sale\<close>. Each entry is a product id typed at the prompt with
  the quantity typed at the prompt that follows a known id; the loop ends at the id
  \<^verbatim>\<open>done\<close> or when the entries are used up.\<close>

fun sell_items :: "(string \<times> int) list \<Rightarrow> sale \<Rightarrow> shop \<Rightarrow> sale \<times> shop" where
  "sell_items [] sl s = (sl, s)"
| "sell_items ((pid, q) # items) sl s =
     (if map ascii_lower pid = ''done'' then (sl, s)
      else case map_of (products s) pid of
        Some r \<Rightarrow>
          (case update_product pid q s of
             (s', True) \<Rightarrow> sell_items items (Sale_add_product r q sl) s'
           | (s', False) \<Rightarrow> sell_items items sl s')
      | None \<Rightarrow> sell_items items sl s)"

definition process_sale :: "floats \<Rightarrow> string \<Rightarrow> (string \<times> int) list \<Rightarrow> shop \<Rightarrow> shop" where
  "process_sale F sid items s =
     (case sell_items items (Sale sid) s of (sl, s') \<Rightarrow> record_sale F sl s')"


section \<open>Properties\<close>

subsection \<open>Well-formed states and fixtures\<close>

text \<open>\<^verbatim>\<open>self.products.get(product_id)\<close>, followed to the object.\<close>

definition products_get :: "shop \<Rightarrow> string \<Rightarrow> product option" where
  "products_get s pid = map_option (\<lambda>r. heap s ! r) (map_of (products s) pid)"

text \<open>Every entry of the catalog refers to a constructed product and is filed under that
  product's own id, as \<^verbatim>\<open>add_product\<close> and \<^verbatim>\<open>load_from_file\<close> file it.\<close>

definition wf_shop :: "shop \<Rightarrow> bool" where
  "wf_shop s = (\<forall>(k, r) \<in> set (products s). r < length (heap s) \<and> product_id (heap s ! r) = k)"

text \<open>The catalog of the scenarios: one product P1, "Widget", at 2.50.\<close>

definition widget_shop :: "int \<Rightarrow> shop" where
  "widget_shop q =
     \<lparr>heap = [\<lparr>product_id = ''P1'', name = ''Widget'', price = 5 / 2, quantity = q\<rparr>],
      products = [(''P1'', 0)], sales = [], inventory_csv = None, sales_csv = None\<rparr>"

text \<open>A text form for the prices of the scenarios, 2.50 and 10.00.\<close>

definition fixture_floats :: floats where
  "fixture_floats =
     \<lparr>str_float = (\<lambda>x. if x = 5 / 2 then ''2.5'' else if x = 10 then ''10.0'' else ''nan''),
      float_of_str = (\<lambda>t. if t = ''2.5'' then Some (5 / 2)
                          else if t = ''10.0'' then Some 10 else None)\<rparr>"

text \<open>A \<^verbatim>\<open>sales.csv\<close> with a row for P1 and a row for a product the catalog does not have;
  a ledger whose sale id holds a carriage return; a ledger with a sale of two line items.\<close>

definition stored_sales_shop :: shop where
  "stored_sales_shop = (widget_shop 6)\<lparr>sales_csv := Some (DictWriter sales_fieldnames
       [[''S1'', ''P1'', ''Widget'', ''4'', ''10.0''], [''S2'', ''P9'', ''Gadget'', ''1'', ''3.0'']])\<rparr>"

definition cr_ledger_shop :: shop where
  "cr_ledger_shop = (widget_shop 6)\<lparr>sales := [\<lparr>sale_id = [CHR ''S'', CR, CHR ''1''], products_sold = [(0, 4)]\<rparr>]\<rparr>"

definition two_item_shop :: shop where
  "two_item_shop = (widget_shop 6)\<lparr>sales := [\<lparr>sale_id = ''S1'', products_sold = [(0, 1), (0, 2)]\<rparr>]\<rparr>"

text \<open>A \<^verbatim>\<open>sales.csv\<close> with a row for P1, a row for a product the catalog does not have whose
  quantity is not a number, and a row that ends after the sale id.\<close>

definition unread_sales_shop :: shop where
  "unread_sales_shop = (widget_shop 6)\<lparr>sales_csv := Some (DictWriter sales_fieldnames
       [[''S1'', ''P1'', ''Widget'', ''4'', ''10.0''], [''S2'', ''P9'', ''Gadget'', ''many'', ''3.0''],
        [''S3'']])\<rparr>"

text \<open>A catalog whose product name holds a carriage return.\<close>

definition cr_name_shop :: shop where
  "cr_name_shop =
     \<lparr>heap = [\<lparr>product_id = ''P1'', name = ''Wid'' @ [CR] @ ''get'', price = 5 / 2, quantity = 10\<rparr>],
      products = [(''P1'', 0)], sales = [], inventory_csv = None, sales_csv = None\<rparr>"

text \<open>The text of a record before its line terminator.\<close>

definition row_text :: "string list \<Rightarrow> string" where
  "row_text fs = (if fs = [[]] then [DQUOTE, DQUOTE] else join_fields fs)"

text \<open>What \<^verbatim>\<open>SalesManager.load_from_file\<close> makes of a sale it had saved: one sale per
  line item, the sale id as it comes back from the file.\<close>

definition reloaded :: "sale \<Rightarrow> sale list" where
  "reloaded sl = map (\<lambda>item. \<lparr>sale_id = universal_newlines (sale_id sl), products_sold = [item]\<rparr>)
     (products_sold sl)"

text \<open>The stored rows \<^verbatim>\<open>SalesManager.load_from_file\<close> gets past: a row whose product id
  is not in the catalog (or is missing), whatever its other cells hold, and a row of a product
  of the catalog whose quantity cell is there and is read by \<^verbatim>\<open>int\<close>. At any other row the
  load ends in an exception.\<close>

definition row_loads :: "shop \<Rightarrow> string list \<Rightarrow> bool" where
  "row_loads s row =
     (case Option.bind (cell row 1) (map_of (products s)) of
        None \<Rightarrow> True
      | Some r \<Rightarrow> Option.bind (cell row 3) int_of_str \<noteq> None)"

text \<open>The "best effort, no rollback" policy in the spec's words: each line item in turn is
  deducted when the deduction succeeds and leaves the state as it is when it fails.\<close>

fun best_effort :: "(ref \<times> int) list \<Rightarrow> shop \<Rightarrow> shop" where
  "best_effort [] s = s"
| "best_effort ((r, q) # items) s =
     (case update_product (product_id (heap s ! r)) q s of
        (s', True) \<Rightarrow> best_effort items s'
      | (s', False) \<Rightarrow> best_effort items s)"

subsection \<open>Operations, reachable states and the invariant\<close>

text \<open>The operations of the shop, as one step function: each returns the state it leaves
  behind, also when it ends in an exception. \<open>allowed\<close> is the front end's contract for
  \<^verbatim>\<open>add_product\<close>: a quantity that is not negative.\<close>

datatype op =
    AddProduct string string real int
  | UpdateProduct string int
  | RecordSale sale
  | ProcessSale string "(string \<times> int) list"
  | ViewInventory
  | ViewSalesReport
  | SaveInventory
  | SaveSales
  | LoadInventory
  | LoadSales
  | Restart

fun exec :: "floats \<Rightarrow> op \<Rightarrow> shop \<Rightarrow> shop" where
  "exec F (AddProduct pid nm pr q) s = add_product F pid nm pr q s"
| "exec F (UpdateProduct pid n) s = fst (update_product pid n s)"
| "exec F (RecordSale sl) s = record_sale F sl s"
| "exec F (ProcessSale sid items) s = process_sale F sid items s"
| "exec F ViewInventory s = s"
| "exec F ViewSalesReport s = s"
| "exec F SaveInventory s = Inventory_save_to_file F s"
| "exec F SaveSales s = SalesManager_save_to_file F s"
| "exec F LoadInventory s = fst (Inventory_load_from_file F s)"
| "exec F LoadSales s = fst (SalesManager_load_from_file s)"
| "exec F Restart s = fst (ShopSystem_init F s)"

fun allowed :: "op \<Rightarrow> bool" where
  "allowed (AddProduct pid nm pr q) = (0 \<le> q)"
| "allowed _ = True"

text \<open>The states the shop can reach from an empty store with no files.\<close>

definition empty_shop :: shop where
  "empty_shop = \<lparr>heap = [], products = [], sales = [], inventory_csv = None, sales_csv = None\<rparr>"

inductive reachable :: "floats \<Rightarrow> shop \<Rightarrow> bool" for F :: floats where
  start: "reachable F empty_shop"
| step: "reachable F s \<Longrightarrow> allowed op \<Longrightarrow> reachable F (exec F op s)"

text \<open>The invariant: no product has a negative quantity, every catalog entry refers to a
  constructed product, and no row of \<^verbatim>\<open>inventory.csv\<close> reads as a negative quantity.\<close>

definition stored_ok :: "string option \<Rightarrow> bool" where
  "stored_ok file = (\<forall>t rows. file = Some t \<longrightarrow> DictReader inventory_fieldnames t = Some rows \<longrightarrow>
     (\<forall>row \<in> set rows. \<forall>qc q. cell row 3 = Some qc \<longrightarrow> int_of_str qc = Some q \<longrightarrow> 0 \<le> q))"

definition shop_inv :: "shop \<Rightarrow> bool" where
  "shop_inv s = ((\<forall>p \<in> set (heap s). 0 \<le> quantity p)
     \<and> (\<forall>(k, r) \<in> set (products s). r < length (heap s))
     \<and> stored_ok (inventory_csv s))"

text \<open>The catalog is well-formed and a dict: no key twice.\<close>

definition catalog_ok :: "shop \<Rightarrow> bool" where
  "catalog_ok s = (wf_shop s \<and> distinct (map fst (products s)))"

subsection \<open>Reading back what the writer wrote\<close>

lemma un_Cons: "c \<noteq> CR \<Longrightarrow> universal_newlines (c # xs) = c # universal_newlines xs"
  by (cases xs) auto

lemma un_append: "ys = [] \<or> hd ys \<noteq> LF \<Longrightarrow>
   universal_newlines (xs @ ys) = universal_newlines xs @ universal_newlines ys"
proof (induction xs rule: universal_newlines.induct)
  case 1
  show ?case by simp
next
  case (2 c)
  then show ?case by (cases ys) auto
next
  case (3 c d cs)
  then show ?case by auto
qed

lemma un_CRLF: "universal_newlines (xs @ CR # LF # ys) = universal_newlines xs @ LF # universal_newlines ys"
  using un_append [of "CR # LF # ys" xs] by simp

lemma un_id: "CR \<notin> set xs \<Longrightarrow> universal_newlines xs = xs"
  by (induction xs rule: universal_newlines.induct) auto

lemma un_no_CR: "CR \<notin> set (universal_newlines xs)"
  by (induction xs rule: universal_newlines.induct) auto

lemma hd_double_quotes: "xs \<noteq> [] \<Longrightarrow> hd xs \<noteq> LF \<Longrightarrow> hd (double_quotes xs) \<noteq> LF"
  by (cases xs) auto

lemma un_double_quotes: "universal_newlines (double_quotes xs) = double_quotes (universal_newlines xs)"
proof (induction xs rule: universal_newlines.induct)
  case 1
  show ?case by simp
next
  case (2 c)
  show ?case by simp
next
  case (3 c d cs)
  show ?case
  proof (cases "c = CR")
    case True
    show ?thesis
    proof (cases "d = LF")
      case True
      with \<open>c = CR\<close> 3 show ?thesis by simp
    next
      case False
      have "universal_newlines (CR # double_quotes (d # cs)) = LF # universal_newlines (double_quotes (d # cs))"
        using False by (cases "double_quotes (d # cs)") (auto split: if_splits)
      with False \<open>c = CR\<close> 3 show ?thesis by simp
    qed
  next
    case False
    with 3 show ?thesis by (simp add: un_Cons)
  qed
qed

lemma needs_quoting_un: "needs_quoting (universal_newlines xs) = needs_quoting xs"
  unfolding needs_quoting_def
  by (induction xs rule: universal_newlines.induct) auto

lemma un_write_field: "universal_newlines (write_field g) = write_field (universal_newlines g)"
proof (cases "needs_quoting g")
  case True
  have "universal_newlines (DQUOTE # double_quotes g @ [DQUOTE])
      = DQUOTE # universal_newlines (double_quotes g) @ [DQUOTE]"
    by (simp add: un_Cons un_append)
  with True show ?thesis by (simp add: write_field_def needs_quoting_un un_double_quotes)
next
  case False
  then have "CR \<notin> set g" by (simp add: needs_quoting_def)
  then have "universal_newlines g = g" by (rule un_id)
  with False show ?thesis by (simp add: write_field_def)
qed

lemma un_join_fields: "universal_newlines (join_fields gs) = join_fields (map universal_newlines gs)"
proof (induction gs rule: join_fields.induct)
  case 1
  show ?case by simp
next
  case (2 f)
  show ?case by (simp add: un_write_field)
next
  case (3 f g fs)
  have "universal_newlines (write_field f @ COMMA # join_fields (g # fs))
      = universal_newlines (write_field f) @ COMMA # universal_newlines (join_fields (g # fs))"
    by (simp add: un_append un_Cons)
  with 3 show ?case by (simp add: un_write_field)
qed

lemma un_nil: "universal_newlines g = [] \<longleftrightarrow> g = []"
  by (cases g rule: universal_newlines.cases) auto

lemma un_row_text: "universal_newlines (row_text gs) = row_text (map universal_newlines gs)"
proof (cases "gs = [[]]")
  case True
  then show ?thesis by (simp add: row_text_def)
next
  case False
  then have "map universal_newlines gs \<noteq> [[]]"
    by (cases gs) (auto simp: un_nil)
  with False show ?thesis by (simp add: row_text_def un_join_fields)
qed

lemma un_rows: "universal_newlines (concat (map writerow rows))
   = concat (map (\<lambda>gs. row_text (map universal_newlines gs) @ [LF]) rows)"
proof (induction rows)
  case Nil
  show ?case by simp
next
  case (Cons gs rows)
  have "writerow gs = row_text gs @ [CR, LF]" by (simp add: writerow_def row_text_def)
  then have "universal_newlines (concat (map writerow (gs # rows)))
      = universal_newlines (row_text gs) @ LF # universal_newlines (concat (map writerow rows))"
    using un_CRLF [of "row_text gs" "concat (map writerow rows)"] by simp
  with Cons show ?case by (simp add: un_row_text)
qed


lemma reader_quoted:
  "reader IN_QUOTED_FIELD fs f (double_quotes g @ DQUOTE # rest)
     = reader QUOTE_IN_QUOTED_FIELD fs (f @ g) rest"
  by (induction g arbitrary: f) auto

lemma reader_plain:
  "\<not> needs_quoting g \<Longrightarrow> reader IN_FIELD fs f (g @ rest) = reader IN_FIELD fs (f @ g) rest"
  by (induction g arbitrary: f) (auto simp: needs_quoting_def)

text \<open>One written field followed by a comma, from the start of a field.\<close>

lemma reader_field_comma:
  assumes "st = START_RECORD \<or> st = START_FIELD"
  shows "reader st fs [] (write_field g @ COMMA # rest) = reader START_FIELD (fs @ [g]) [] rest"
proof (cases "needs_quoting g")
  case True
  with assms show ?thesis by (auto simp: write_field_def reader_quoted)
next
  case False
  show ?thesis
  proof (cases g)
    case Nil
    with assms False show ?thesis by (auto simp: write_field_def)
  next
    case (Cons c cs)
    with False have c: "c \<noteq> LF" "c \<noteq> DQUOTE" "c \<noteq> COMMA" and cs: "\<not> needs_quoting cs"
      by (auto simp: needs_quoting_def)
    have "reader st fs [] (c # cs @ COMMA # rest) = reader IN_FIELD fs [c] (cs @ COMMA # rest)"
      using assms c by auto
    also have "\<dots> = reader IN_FIELD fs ([c] @ cs) (COMMA # rest)"
      using cs by (rule reader_plain)
    finally show ?thesis using False Cons by (simp add: write_field_def)
  qed
qed

lemma reader_field_LF:
  assumes "st = START_RECORD \<or> st = START_FIELD" and "st = START_RECORD \<longrightarrow> g \<noteq> []"
  shows "reader st fs [] (write_field g @ LF # rest) = (fs @ [g]) # reader START_RECORD [] [] rest"
proof (cases "needs_quoting g")
  case True
  with assms show ?thesis by (auto simp: write_field_def reader_quoted)
next
  case False
  show ?thesis
  proof (cases g)
    case Nil
    with assms False show ?thesis by (auto simp: write_field_def)
  next
    case (Cons c cs)
    with False have c: "c \<noteq> LF" "c \<noteq> DQUOTE" "c \<noteq> COMMA" and cs: "\<not> needs_quoting cs"
      by (auto simp: needs_quoting_def)
    have "reader st fs [] (c # cs @ LF # rest) = reader IN_FIELD fs [c] (cs @ LF # rest)"
      using assms c by auto
    also have "\<dots> = reader IN_FIELD fs ([c] @ cs) (LF # rest)"
      using cs by (rule reader_plain)
    finally show ?thesis using False Cons by (simp add: write_field_def)
  qed
qed

lemma reader_join_fields:
  assumes "st = START_RECORD \<or> st = START_FIELD" and "gs \<noteq> []" and "st = START_RECORD \<longrightarrow> gs \<noteq> [[]]"
  shows "reader st fs [] (join_fields gs @ LF # rest) = (fs @ gs) # reader START_RECORD [] [] rest"
  using assms
proof (induction gs arbitrary: st fs rule: join_fields.induct)
  case 1
  then show ?case by simp
next
  case (2 f)
  then show ?case using reader_field_LF [of st f fs rest] by auto
next
  case (3 f g gs)
  have "reader st fs [] (join_fields (f # g # gs) @ LF # rest)
      = reader START_FIELD (fs @ [f]) [] (join_fields (g # gs) @ LF # rest)"
    using reader_field_comma [OF "3.prems"(1), of fs f "join_fields (g # gs) @ LF # rest"] by simp
  also have "\<dots> = ((fs @ [f]) @ g # gs) # reader START_RECORD [] [] rest"
    by (rule "3.IH") auto
  finally show ?case by simp
qed

lemma reader_row_text:
  "reader START_RECORD [] [] (row_text gs @ LF # rest) = gs # reader START_RECORD [] [] rest"
proof (cases "gs = [] \<or> gs = [[]]")
  case True
  then show ?thesis by (auto simp: row_text_def)
next
  case False
  then show ?thesis using reader_join_fields [of START_RECORD gs "[]" rest]
    by (simp add: row_text_def)
qed

lemma reader_rows:
  "reader START_RECORD [] [] (concat (map (\<lambda>gs. row_text gs @ [LF]) rows)) = rows"
  by (induction rows) (simp_all add: reader_row_text)

lemma read_text_DictWriter:
  "read_text (DictWriter fieldnames rows) = map (map universal_newlines) (fieldnames # rows)"
proof -
  have "universal_newlines (concat (map writerow (fieldnames # rows)))
      = concat (map (\<lambda>gs. row_text gs @ [LF]) (map (map universal_newlines) (fieldnames # rows)))"
    unfolding un_rows by (simp add: comp_def)
  then show ?thesis
    unfolding read_text_def DictWriter_def by (simp only: reader_rows)
qed

subsection \<open>\<^verbatim>\<open>int(str(n))\<close> is \<open>n\<close>\<close>

lemma digit_char: "k < 10 \<Longrightarrow> is_digit (char_of (48 + k)) \<and> (of_char (char_of (48 + k)) :: nat) - 48 = k"
  by (simp add: is_digit_def)

lemma digits_all_digit: "c \<in> set (digits n) \<Longrightarrow> is_digit c"
proof (induction n rule: digits.induct)
  case (1 n)
  then show ?case
    using digit_char [of n] digit_char [of "n mod 10"]
    by (subst (asm) digits.simps) (auto split: if_splits)
qed

lemma digits_value_digits_append:
  "\<forall>c \<in> set xs. is_digit c \<Longrightarrow> k < 10 \<Longrightarrow> digits_value acc xs = Some v \<Longrightarrow>
   digits_value acc (xs @ [char_of (48 + k)]) = Some (10 * v + k)"
  by (induction xs arbitrary: acc) (auto simp: digit_char)

lemma digits_value_digits: "digits_value 0 (digits n) = Some n"
proof (induction n rule: digits.induct)
  case (1 n)
  show ?case
  proof (cases "n < 10")
    case True
    then show ?thesis by (subst digits.simps) (simp add: digit_char)
  next
    case False
    then have IH: "digits_value 0 (digits (n div 10)) = Some (n div 10)" using 1 by simp
    have "digits_value 0 (digits (n div 10) @ [char_of (48 + n mod 10)]) = Some (10 * (n div 10) + n mod 10)"
      by (rule digits_value_digits_append [OF _ _ IH]) (auto simp: digits_all_digit)
    with False show ?thesis by (subst digits.simps) simp
  qed
qed

lemma digits_nonempty: "digits n \<noteq> []"
  by (subst digits.simps) simp

lemma unsigned_value_digits: "unsigned_value (digits n) = Some n"
proof -
  obtain c cs where cs: "digits n = c # cs" using digits_nonempty [of n] by (cases "digits n") auto
  then have "is_digit c" using digits_all_digit [of c n] by simp
  with cs show ?thesis using digits_value_digits [of n] by (simp add: unsigned_value_def)
qed

lemma digit_not_space: "is_digit c \<Longrightarrow> \<not> is_space c"
  by (auto simp: is_digit_def is_space_def Let_def)

lemma digit_not_sign: "is_digit c \<Longrightarrow> c \<noteq> CHR ''-'' \<and> c \<noteq> CHR ''+''"
  by (auto simp: is_digit_def)

lemma strip_id: "s \<noteq> [] \<Longrightarrow> \<not> is_space (hd s) \<Longrightarrow> \<not> is_space (last s) \<Longrightarrow> strip s = s"
proof -
  assume a: "s \<noteq> []" "\<not> is_space (hd s)" "\<not> is_space (last s)"
  then have "dropWhile is_space s = s" by (cases s) auto
  moreover have "dropWhile is_space (rev s) = rev s" using a by (cases "rev s") (auto simp: last_rev hd_rev)
  ultimately show ?thesis by (simp add: strip_def)
qed

lemma strip_digits: "strip (digits n) = digits n"
proof (rule strip_id)
  show "digits n \<noteq> []" by (rule digits_nonempty)
  show "\<not> is_space (hd (digits n))"
    using digits_nonempty [of n] digits_all_digit [of "hd (digits n)" n] digit_not_space by auto
  show "\<not> is_space (last (digits n))"
    using digits_nonempty [of n] digits_all_digit [of "last (digits n)" n] digit_not_space by auto
qed

lemma strip_minus_digits: "strip (CHR ''-'' # digits n) = CHR ''-'' # digits n"
proof (rule strip_id)
  show "CHR ''-'' # digits n \<noteq> []" by simp
  show "\<not> is_space (hd (CHR ''-'' # digits n))" by (simp add: is_space_def)
  show "\<not> is_space (last (CHR ''-'' # digits n))"
    using digits_nonempty [of n] digits_all_digit [of "last (digits n)" n] digit_not_space by auto
qed

lemma int_of_str_str_int: "int_of_str (str_int n) = Some n"
proof (cases "n < 0")
  case True
  then show ?thesis
    by (simp add: int_of_str_def str_int_def strip_minus_digits unsigned_value_digits)
next
  case False
  obtain c cs where cs: "digits (nat n) = c # cs"
    using digits_nonempty [of "nat n"] by (cases "digits (nat n)") auto
  then have "is_digit c" using digits_all_digit [of c "nat n"] by simp
  then have "c \<noteq> CHR ''-''" "c \<noteq> CHR ''+''" using digit_not_sign by auto
  moreover have "unsigned_value (c # cs) = Some (nat n)" using unsigned_value_digits [of "nat n"] cs by simp
  moreover have "strip (digits (nat n)) = c # cs" using strip_digits [of "nat n"] cs by simp
  ultimately show ?thesis using False by (simp add: int_of_str_def str_int_def)
qed

lemma str_int_no_CR: "CR \<notin> set (str_int n)"
proof -
  have "\<not> is_digit CR" by (simp add: is_digit_def)
  then have "CR \<notin> set (digits k)" for k using digits_all_digit by blast
  then show ?thesis by (simp add: str_int_def)
qed

subsection \<open>Deduction\<close>

lemma update_product_failure: "snd (update_product pid n s) = False \<Longrightarrow> fst (update_product pid n s) = s"
  by (auto simp: update_product_def update_quantity_def split: option.splits if_splits)

lemma wf_shop_lookup:
  assumes "wf_shop s" and "map_of (products s) k = Some r"
  shows "r < length (heap s) \<and> product_id (heap s ! r) = k"
proof -
  from assms(2) have "(k, r) \<in> set (products s)" by (rule map_of_SomeD)
  with assms(1) show ?thesis by (auto simp: wf_shop_def)
qed

text \<open>C2: a deduction of at most the stock on hand succeeds, lowers that product's quantity
  by exactly the amount, and leaves every other product, the catalog's keys, the ledger and
  the files as they were.\<close>

theorem update_product_success:
  assumes "wf_shop s" and "map_of (products s) pid = Some r" and "n \<le> quantity (heap s ! r)"
  shows "\<exists>s'. update_product pid n s = (s', True)
           \<and> products_get s' pid = Some ((heap s ! r)\<lparr>quantity := quantity (heap s ! r) - n\<rparr>)
           \<and> (\<forall>pid'. pid' \<noteq> pid \<longrightarrow> products_get s' pid' = products_get s pid')
           \<and> products s' = products s \<and> sales s' = sales s
           \<and> inventory_csv s' = inventory_csv s \<and> sales_csv s' = sales_csv s"
proof -
  let ?p = "(heap s ! r)\<lparr>quantity := quantity (heap s ! r) - n\<rparr>"
  let ?s' = "s\<lparr>heap := (heap s)[r := ?p]\<rparr>"
  from assms have r: "r < length (heap s)" and idr: "product_id (heap s ! r) = pid"
    using wf_shop_lookup by blast+
  have res: "update_product pid n s = (?s', True)"
    using assms(2,3) by (simp add: update_product_def update_quantity_def)
  have own: "products_get ?s' pid = Some ?p"
    using assms(2) r by (simp add: products_get_def)
  have others: "products_get ?s' pid' = products_get s pid'" if "pid' \<noteq> pid" for pid'
  proof (cases "map_of (products s) pid'")
    case None
    then show ?thesis by (simp add: products_get_def)
  next
    case (Some r')
    with assms(1) have "product_id (heap s ! r') = pid'" using wf_shop_lookup by blast
    with idr that have "r' \<noteq> r" by auto
    with Some show ?thesis by (simp add: products_get_def)
  qed
  from res own others show ?thesis by auto
qed

theorem update_product_success_witness:
  "\<exists>s'. update_product ''P1'' 4 (widget_shop 10) = (s', True)
      \<and> products_get s' ''P1''
          = Some \<lparr>product_id = ''P1'', name = ''Widget'', price = 5 / 2, quantity = 6\<rparr>"
proof -
  have "wf_shop (widget_shop 10)" by (simp add: wf_shop_def widget_shop_def)
  moreover have "map_of (products (widget_shop 10)) ''P1'' = Some 0" by (simp add: widget_shop_def)
  moreover have "4 \<le> quantity (heap (widget_shop 10) ! 0)" by (simp add: widget_shop_def)
  ultimately show ?thesis
    using update_product_success [of "widget_shop 10" "''P1''" 0 4]
    by (auto simp: widget_shop_def)
qed

text \<open>C3: a deduction for an unknown product id, or of more than the stock on hand, returns
  the failure value \<open>False\<close> (the function is total: nothing is raised) and the whole state is
  unchanged.\<close>

theorem update_product_rejects:
  assumes "map_of (products s) pid = None
           \<or> (\<exists>r. map_of (products s) pid = Some r \<and> n > quantity (heap s ! r))"
  shows "update_product pid n s = (s, False)"
  using assms by (auto simp: update_product_def update_quantity_def)

theorem update_product_rejects_witness:
  "update_product ''P9'' 1 (widget_shop 10) = (widget_shop 10, False)
   \<and> update_product ''P1'' 11 (widget_shop 10) = (widget_shop 10, False)"
proof -
  have "map_of (products (widget_shop 10)) ''P9'' = None" by (simp add: widget_shop_def)
  moreover have "map_of (products (widget_shop 10)) ''P1'' = Some 0
      \<and> 11 > quantity (heap (widget_shop 10) ! 0)" by (simp add: widget_shop_def)
  ultimately show ?thesis
    using update_product_rejects [of "widget_shop 10" "''P9''" 1]
      update_product_rejects [of "widget_shop 10" "''P1''" 11] by blast
qed

subsection \<open>Recording and processing a sale\<close>

lemma fold_deduct_item_best_effort: "fold deduct_item items s = best_effort items s"
proof (induction items arbitrary: s)
  case Nil
  show ?case by simp
next
  case (Cons item items)
  obtain r q where item: "item = (r, q)" by (cases item)
  obtain s' ok where up: "update_product (product_id (heap s ! r)) q s = (s', ok)"
    by (cases "update_product (product_id (heap s ! r)) q s")
  show ?case
  proof (cases ok)
    case True
    with up item Cons.IH show ?thesis by (simp add: deduct_item_def)
  next
    case False
    with up update_product_failure [of "product_id (heap s ! r)" q s] have "s' = s" by simp
    with False up item Cons.IH show ?thesis by (simp add: deduct_item_def)
  qed
qed

text \<open>C6: \<^verbatim>\<open>record_sale\<close> appends the sale whatever its deductions do: the resulting state
  is the best-effort state (each deduction applied when it succeeds, skipped when it fails,
  none undone) with the sale added at the end of the ledger, saved to \<^verbatim>\<open>sales.csv\<close>.\<close>

theorem record_sale_best_effort:
  "record_sale F sl s
     = SalesManager_save_to_file F ((best_effort (products_sold sl) s)
         \<lparr>sales := sales (best_effort (products_sold sl) s) @ [sl]\<rparr>)
   \<and> sales (record_sale F sl s) = sales s @ [sl]"
proof -
  have keep: "sales (best_effort items t) = sales t" for items t
  proof (induction items arbitrary: t)
    case Nil
    show ?case by simp
  next
    case (Cons item items)
    obtain r q where item: "item = (r, q)" by (cases item)
    have "sales (fst (update_product pid n t)) = sales t" for pid n
      by (simp add: update_product_def split: option.splits prod.splits)
    then show ?case using Cons.IH item
      by (auto split: prod.splits bool.splits) (metis fst_conv)
  qed
  show ?thesis
    by (simp add: record_sale_def Let_def fold_deduct_item_best_effort keep
        SalesManager_save_to_file_def)
qed

text \<open>C1 (the code as it runs): after the sale S1 of 4 Widgets from a stock of 10 the report
  holds the single row S1, P1, Widget, 4, 10.00, and the stock of P1 is 2: the 4 units are
  deducted once while the sale is assembled and once more by \<^verbatim>\<open>record_sale\<close>.\<close>

theorem process_sale_S1_deducts_twice:
  "view_inventory (process_sale F ''S1'' [(''P1'', 4)] (widget_shop 10))
     = [(''P1'', ''Widget'', 5 / 2, 2)]
   \<and> view_sales_report (process_sale F ''S1'' [(''P1'', 4)] (widget_shop 10))
     = [(''S1'', ''P1'', ''Widget'', 4, 10)]"
  by (simp add: widget_shop_def process_sale_def record_sale_def update_product_def
      update_quantity_def Sale_def Sale_add_product_def deduct_item_def
      SalesManager_save_to_file_def view_inventory_def Product_to_dict_def
      view_sales_report_def Sale_to_dict_def)

text \<open>C7: when P1 has 6 in stock, the sale S2 of 999 units of P1 skips the item: a sale
  without line items is appended to the ledger, the products and the catalog are untouched
  (P1 keeps 6), and the sales report is what it was.\<close>

theorem process_sale_S2_skips:
  assumes "map_of (products s) ''P1'' = Some r" and "quantity (heap s ! r) = 6"
  shows "sales (process_sale F ''S2'' [(''P1'', 999)] s)
           = sales s @ [\<lparr>sale_id = ''S2'', products_sold = []\<rparr>]
         \<and> heap (process_sale F ''S2'' [(''P1'', 999)] s) = heap s
         \<and> products (process_sale F ''S2'' [(''P1'', 999)] s) = products s
         \<and> products_get (process_sale F ''S2'' [(''P1'', 999)] s) ''P1'' = Some (heap s ! r)
         \<and> view_sales_report (process_sale F ''S2'' [(''P1'', 999)] s) = view_sales_report s"
proof -
  have "update_product ''P1'' 999 s = (s, False)"
    using assms by (simp add: update_product_def update_quantity_def)
  then have "process_sale F ''S2'' [(''P1'', 999)] s
      = SalesManager_save_to_file F (s\<lparr>sales := sales s @ [Sale ''S2'']\<rparr>)"
    using assms(1) by (simp add: process_sale_def record_sale_def Let_def Sale_def)
  then show ?thesis
    using assms(1)
    by (simp add: SalesManager_save_to_file_def Sale_def products_get_def
        view_sales_report_def Sale_to_dict_def)
qed

theorem process_sale_S2_skips_witness:
  "sales (process_sale fixture_floats ''S2'' [(''P1'', 999)] (widget_shop 6))
     = [\<lparr>sale_id = ''S2'', products_sold = []\<rparr>]
   \<and> products_get (process_sale fixture_floats ''S2'' [(''P1'', 999)] (widget_shop 6)) ''P1''
     = Some \<lparr>product_id = ''P1'', name = ''Widget'', price = 5 / 2, quantity = 6\<rparr>
   \<and> view_sales_report (process_sale fixture_floats ''S2'' [(''P1'', 999)] (widget_shop 6)) = []"
proof -
  have a: "map_of (products (widget_shop 6)) ''P1'' = Some 0" by (simp add: widget_shop_def)
  have b: "quantity (heap (widget_shop 6) ! 0) = 6" by (simp add: widget_shop_def)
  have c: "sales (widget_shop 6) = []" "view_sales_report (widget_shop 6) = []"
    "heap (widget_shop 6) ! 0
       = \<lparr>product_id = ''P1'', name = ''Widget'', price = 5 / 2, quantity = 6\<rparr>"
    by (simp_all add: widget_shop_def view_sales_report_def)
  show ?thesis
    using process_sale_S2_skips [OF a b, of fixture_floats] by (simp add: c)
qed

subsection \<open>Loading the ledger\<close>

lemma load_sales_keeps:
  "load_sales rows s = (s', e) \<Longrightarrow>
     heap s' = heap s \<and> products s' = products s \<and> inventory_csv s' = inventory_csv s
     \<and> sales_csv s' = sales_csv s"
proof (induction rows arbitrary: s)
  case Nil
  then show ?case by simp
next
  case (Cons row rows)
  then show ?case
    by (auto simp: Let_def split: option.splits)
qed

lemma row_loads_sales [simp]: "row_loads (s\<lparr>sales := x\<rparr>) = row_loads s"
  by (simp add: row_loads_def fun_eq_iff)

lemma load_sales_prefix:
  "\<exists>s' e sls. load_sales rows s = (s', e) \<and> (e = None \<longleftrightarrow> list_all (row_loads s) rows)
     \<and> sales s' = sales s @ sls
     \<and> list_all2 (\<lambda>row sl. sale_id sl = row ! 0 \<and>
        (case Option.bind (cell row 1) (map_of (products s)) of
           None \<Rightarrow> products_sold sl = []
         | Some r \<Rightarrow> \<exists>qc q. cell row 3 = Some qc \<and> int_of_str qc = Some q
                        \<and> products_sold sl = [(r, q)])) (takeWhile (row_loads s) rows) sls"
proof (induction rows arbitrary: s)
  case Nil
  show ?case by simp
next
  case (Cons row rows)
  let ?R = "\<lambda>s row sl. sale_id sl = row ! 0 \<and>
        (case Option.bind (cell row 1) (map_of (products s)) of
           None \<Rightarrow> products_sold sl = []
         | Some r \<Rightarrow> \<exists>qc q. cell row 3 = Some qc \<and> int_of_str qc = Some q
                        \<and> products_sold sl = [(r, q)])"
  show ?case
  proof (cases "row_loads s row")
    case False
    then have "\<exists>e. load_sales (row # rows) s = (s, Some e)"
      by (auto simp: row_loads_def Let_def split: option.splits Option.bind_splits)
    with False show ?thesis by auto
  next
    case True
    then obtain sl where
      step: "load_sales (row # rows) s = load_sales rows (s\<lparr>sales := sales s @ [sl]\<rparr>)"
      and sl: "?R s row sl"
      by (auto simp: row_loads_def Let_def Sale_def Sale_add_product_def
          split: option.splits Option.bind_splits)
    from Cons.IH [of "s\<lparr>sales := sales s @ [sl]\<rparr>"] obtain s' e sls where
      ih: "load_sales rows (s\<lparr>sales := sales s @ [sl]\<rparr>) = (s', e)"
        "e = None \<longleftrightarrow> list_all (row_loads s) rows"
        "sales s' = (sales s @ [sl]) @ sls"
        "list_all2 (?R s) (takeWhile (row_loads s) rows) sls"
      by auto
    have "load_sales (row # rows) s = (s', e)" using step ih(1) by simp
    moreover have "e = None \<longleftrightarrow> list_all (row_loads s) (row # rows)" using ih(2) True by simp
    moreover have "sales s' = sales s @ (sl # sls)" using ih(3) by simp
    moreover have "list_all2 (?R s) (takeWhile (row_loads s) (row # rows)) (sl # sls)"
      using ih(4) sl True by simp
    ultimately show ?thesis by blast
  qed
qed

lemma load_sales_single:
  "load_sales rows s = (s', e) \<Longrightarrow> \<forall>sl \<in> set (sales s). length (products_sold sl) \<le> 1 \<Longrightarrow>
     \<forall>sl \<in> set (sales s'). length (products_sold sl) \<le> 1"
proof (induction rows arbitrary: s)
  case Nil
  then show ?case by simp
next
  case (Cons row rows)
  show ?case
  proof (cases "load_sales (row # rows) s = (s, e)")
    case True
    with Cons.prems show ?thesis by simp
  next
    case False
    with Cons.prems obtain sl where
      step: "load_sales rows (s\<lparr>sales := sales s @ [sl]\<rparr>) = (s', e)"
      and sl: "length (products_sold sl) \<le> 1"
      by (auto simp: Let_def Sale_def Sale_add_product_def split: option.splits)
    show ?thesis by (rule Cons.IH [OF step]) (use sl Cons.prems(2) in auto)
  qed
qed


lemma DictReader_DictWriter:
  assumes "map universal_newlines fieldnames = fieldnames"
  shows "DictReader fieldnames (DictWriter fieldnames rows)
     = Some (filter (\<lambda>r. r \<noteq> []) (map (map universal_newlines) rows))"
  using assms by (simp add: DictReader_def read_text_DictWriter)

lemma un_sales_fieldnames: "map universal_newlines sales_fieldnames = sales_fieldnames"
  by (simp add: sales_fieldnames_def)

lemma un_inventory_fieldnames: "map universal_newlines inventory_fieldnames = inventory_fieldnames"
  by (simp add: inventory_fieldnames_def)

lemma int_of_str_un_str_int: "int_of_str (universal_newlines (str_int q)) = Some q"
  by (simp add: un_id str_int_no_CR int_of_str_str_int)

lemma load_sales_items:
  assumes "\<forall>(r, q) \<in> set items. map_of (products s) (universal_newlines (product_id (h ! r))) = Some r"
  shows "load_sales (map (\<lambda>e. map universal_newlines (sales_row F e))
            (map (\<lambda>(r, q). (sid, product_id (h ! r), name (h ! r), q, price (h ! r) * of_int q))
               items) @ rest) s
         = load_sales rest (s\<lparr>sales := sales s
              @ map (\<lambda>item. \<lparr>sale_id = universal_newlines sid, products_sold = [item]\<rparr>) items\<rparr>)"
  using assms
proof (induction items arbitrary: s)
  case Nil
  then show ?case by simp
next
  case (Cons item items)
  obtain r q where item: "item = (r, q)" by (cases item)
  let ?s1 = "s\<lparr>sales := sales s @ [\<lparr>sale_id = universal_newlines sid, products_sold = [(r, q)]\<rparr>]\<rparr>"
  let ?rows = "\<lambda>items. map (\<lambda>e. map universal_newlines (sales_row F e))
            (map (\<lambda>(r, q). (sid, product_id (h ! r), name (h ! r), q, price (h ! r) * of_int q))
               items)"
  have look: "map_of (products s) (universal_newlines (product_id (h ! r))) = Some r"
    using Cons.prems item by simp
  have rest: "\<forall>(r, q) \<in> set items. map_of (products ?s1) (universal_newlines (product_id (h ! r))) = Some r"
    using Cons.prems by simp
  have "load_sales (?rows (item # items) @ rest) s = load_sales (?rows items @ rest) ?s1"
    using look item
    by (simp add: sales_row_def cell_def Sale_def Sale_add_product_def int_of_str_un_str_int)
  also have "\<dots> = load_sales rest (?s1\<lparr>sales := sales ?s1
              @ map (\<lambda>item. \<lparr>sale_id = universal_newlines sid, products_sold = [item]\<rparr>) items\<rparr>)"
    by (rule Cons.IH [OF rest])
  finally show ?case using item by simp
qed

lemma load_sales_ledger:
  assumes "\<forall>sl \<in> set sls. \<forall>(r, q) \<in> set (products_sold sl).
             map_of (products s) (universal_newlines (product_id (h ! r))) = Some r"
  shows "load_sales (map (\<lambda>e. map universal_newlines (sales_row F e))
            (concat (map (Sale_to_dict h) sls))) s
         = (s\<lparr>sales := sales s @ concat (map reloaded sls)\<rparr>, None)"
  using assms
proof (induction sls arbitrary: s)
  case Nil
  then show ?case by simp
next
  case (Cons sl sls)
  let ?s1 = "s\<lparr>sales := sales s @ reloaded sl\<rparr>"
  let ?rest = "map (\<lambda>e. map universal_newlines (sales_row F e)) (concat (map (Sale_to_dict h) sls))"
  have "load_sales (map (\<lambda>e. map universal_newlines (sales_row F e))
            (concat (map (Sale_to_dict h) (sl # sls)))) s
      = load_sales (map (\<lambda>e. map universal_newlines (sales_row F e)) (Sale_to_dict h sl) @ ?rest) s"
    by simp
  also have "\<dots> = load_sales ?rest ?s1"
    unfolding Sale_to_dict_def reloaded_def
    by (rule load_sales_items) (use Cons.prems in simp)
  also have "\<dots> = (?s1\<lparr>sales := sales ?s1 @ concat (map reloaded sls)\<rparr>, None)"
    by (rule Cons.IH) (use Cons.prems in simp)
  finally show ?case by simp
qed

lemma sales_rows_nonempty: "filter (\<lambda>r. r \<noteq> []) (map (map universal_newlines) (map (sales_row F) es))
   = map (\<lambda>e. map universal_newlines (sales_row F e)) es"
  by (induction es) (auto simp: sales_row_def)

lemma SalesManager_save_load:
  assumes "\<forall>sl \<in> set (sales s). \<forall>(r, q) \<in> set (products_sold sl).
             map_of (products s) (universal_newlines (product_id (heap s ! r))) = Some r"
  shows "SalesManager_init (SalesManager_save_to_file F s)
         = ((SalesManager_save_to_file F s)\<lparr>sales := concat (map reloaded (sales s))\<rparr>, None)"
proof -
  let ?t = "(SalesManager_save_to_file F s)\<lparr>sales := []\<rparr>"
  have "load_sales (map (\<lambda>e. map universal_newlines (sales_row F e))
            (concat (map (Sale_to_dict (heap s)) (sales s)))) ?t
      = (?t\<lparr>sales := sales ?t @ concat (map reloaded (sales s))\<rparr>, None)"
    by (rule load_sales_ledger) (use assms in \<open>simp add: SalesManager_save_to_file_def\<close>)
  moreover have "SalesManager_init (SalesManager_save_to_file F s)
      = load_sales (map (\<lambda>e. map universal_newlines (sales_row F e))
            (concat (map (Sale_to_dict (heap s)) (sales s)))) ?t"
    by (simp add: SalesManager_init_def SalesManager_load_from_file_def
        SalesManager_save_to_file_def DictReader_DictWriter un_sales_fieldnames
        view_sales_report_def sales_rows_nonempty del: map_map)
  ultimately show ?thesis by (simp add: SalesManager_save_to_file_def)
qed

text \<open>C9: \<^verbatim>\<open>load_from_file\<close> on a stored ledger. A row whose product id is not in the
  catalog never stops the load, whatever its quantity cell holds: the load ends without an
  exception exactly when every row of a product of the catalog has a quantity that \<^verbatim>\<open>int\<close>
  reads. Each row up to the first that does not has given one sale, in order, with the row's
  sale id. A row whose product id is not in the catalog gives a sale without line items, which
  adds no row to any report; a row whose product id is in the catalog gives the line item of
  that product with the quantity stored in the row.\<close>

theorem load_from_file_drops_unknown_products:
  assumes "sales_csv s = Some t" and "DictReader sales_fieldnames t = Some rows"
  shows "\<exists>s' e sls. SalesManager_load_from_file s = (s', e)
     \<and> (e = None \<longleftrightarrow> list_all (row_loads s) rows)
     \<and> sales s' = sales s @ sls
     \<and> view_sales_report s' = view_sales_report s @ concat (map (Sale_to_dict (heap s)) sls)
     \<and> list_all2 (\<lambda>row sl. sale_id sl = row ! 0 \<and>
        (case Option.bind (cell row 1) (map_of (products s)) of
           None \<Rightarrow> products_sold sl = [] \<and> (\<forall>h. Sale_to_dict h sl = [])
         | Some r \<Rightarrow> \<exists>qc q. cell row 3 = Some qc \<and> int_of_str qc = Some q
                        \<and> products_sold sl = [(r, q)])) (takeWhile (row_loads s) rows) sls"
proof -
  from load_sales_prefix [of rows s] obtain s' e sls where
    load: "load_sales rows s = (s', e)" and
    e: "e = None \<longleftrightarrow> list_all (row_loads s) rows" and
    sls: "sales s' = sales s @ sls" and
    rel: "list_all2 (\<lambda>row sl. sale_id sl = row ! 0 \<and>
        (case Option.bind (cell row 1) (map_of (products s)) of
           None \<Rightarrow> products_sold sl = []
         | Some r \<Rightarrow> \<exists>qc q. cell row 3 = Some qc \<and> int_of_str qc = Some q
                        \<and> products_sold sl = [(r, q)])) (takeWhile (row_loads s) rows) sls"
    by blast
  have ret: "SalesManager_load_from_file s = (s', e)"
    using assms load by (simp add: SalesManager_load_from_file_def)
  have heap: "heap s' = heap s" using load_sales_keeps [OF load] by simp
  have report: "view_sales_report s' = view_sales_report s @ concat (map (Sale_to_dict (heap s)) sls)"
    using sls heap by (simp add: view_sales_report_def)
  have "list_all2 (\<lambda>row sl. sale_id sl = row ! 0 \<and>
        (case Option.bind (cell row 1) (map_of (products s)) of
           None \<Rightarrow> products_sold sl = [] \<and> (\<forall>h. Sale_to_dict h sl = [])
         | Some r \<Rightarrow> \<exists>qc q. cell row 3 = Some qc \<and> int_of_str qc = Some q
                        \<and> products_sold sl = [(r, q)])) (takeWhile (row_loads s) rows) sls"
    using rel by (rule list_all2_mono) (auto simp: Sale_to_dict_def split: option.splits)
  with ret e sls report show ?thesis by blast
qed

lemma stored_sales_rows:
  "DictReader sales_fieldnames (DictWriter sales_fieldnames
       [[''S1'', ''P1'', ''Widget'', ''4'', ''10.0''], [''S2'', ''P9'', ''Gadget'', ''1'', ''3.0'']])
   = Some [[''S1'', ''P1'', ''Widget'', ''4'', ''10.0''], [''S2'', ''P9'', ''Gadget'', ''1'', ''3.0'']]"
  by (simp add: DictReader_DictWriter un_sales_fieldnames)

lemma int_of_str_4: "int_of_str ''4'' = Some 4"
  by code_simp

lemma unread_sales_rows:
  "DictReader sales_fieldnames (DictWriter sales_fieldnames
       [[''S1'', ''P1'', ''Widget'', ''4'', ''10.0''], [''S2'', ''P9'', ''Gadget'', ''many'', ''3.0''],
        [''S3'']])
   = Some [[''S1'', ''P1'', ''Widget'', ''4'', ''10.0''], [''S2'', ''P9'', ''Gadget'', ''many'', ''3.0''],
        [''S3'']]"
  by (simp add: DictReader_DictWriter un_sales_fieldnames)

theorem load_from_file_drops_unknown_products_witness:
  "snd (SalesManager_load_from_file unread_sales_shop) = None
   \<and> sales (fst (SalesManager_load_from_file unread_sales_shop))
       = [\<lparr>sale_id = ''S1'', products_sold = [(0, 4)]\<rparr>, \<lparr>sale_id = ''S2'', products_sold = []\<rparr>,
          \<lparr>sale_id = ''S3'', products_sold = []\<rparr>]
   \<and> view_sales_report (fst (SalesManager_load_from_file unread_sales_shop))
       = [(''S1'', ''P1'', ''Widget'', 4, 10)]"
proof -
  let ?rows = "[[''S1'', ''P1'', ''Widget'', ''4'', ''10.0''], [''S2'', ''P9'', ''Gadget'', ''many'', ''3.0''],
        [''S3'']]"
  have a: "sales_csv unread_sales_shop = Some (DictWriter sales_fieldnames ?rows)"
    by (simp add: unread_sales_shop_def)
  have c: "map_of (products unread_sales_shop) = [''P1'' \<mapsto> 0]"
    by (simp add: unread_sales_shop_def widget_shop_def)
  have l: "list_all (row_loads unread_sales_shop) ?rows"
    by (simp add: row_loads_def c cell_def int_of_str_4)
  then have tw: "takeWhile (row_loads unread_sales_shop) ?rows = ?rows" by simp
  from load_from_file_drops_unknown_products [OF a unread_sales_rows] obtain s' e sls where
    ret: "SalesManager_load_from_file unread_sales_shop = (s', e)" and
    e: "e = None \<longleftrightarrow> list_all (row_loads unread_sales_shop) ?rows" and
    sls: "sales s' = sales unread_sales_shop @ sls" and
    report: "view_sales_report s' = view_sales_report unread_sales_shop
        @ concat (map (Sale_to_dict (heap unread_sales_shop)) sls)" and
    rel: "list_all2 (\<lambda>row sl. sale_id sl = row ! 0 \<and>
        (case Option.bind (cell row 1) (map_of (products unread_sales_shop)) of
           None \<Rightarrow> products_sold sl = [] \<and> (\<forall>h. Sale_to_dict h sl = [])
         | Some r \<Rightarrow> \<exists>qc q. cell row 3 = Some qc \<and> int_of_str qc = Some q
                        \<and> products_sold sl = [(r, q)]))
       (takeWhile (row_loads unread_sales_shop) ?rows) sls"
    by blast
  from rel have "sls = [\<lparr>sale_id = ''S1'', products_sold = [(0, 4)]\<rparr>,
      \<lparr>sale_id = ''S2'', products_sold = []\<rparr>, \<lparr>sale_id = ''S3'', products_sold = []\<rparr>]"
    unfolding tw by (auto simp: list_all2_Cons1 c cell_def int_of_str_4)
  with ret e l sls report show ?thesis
    by (simp add: unread_sales_shop_def widget_shop_def view_sales_report_def Sale_to_dict_def)
qed

text \<open>C10: after a \<^verbatim>\<open>SalesManager\<close> has been built from \<^verbatim>\<open>sales.csv\<close>, every sale of its
  ledger has at most one line item; and a ledger that is saved and loaded again (its line
  items being products of the catalog) comes back as one sale per line item, the sales of one
  original sale sharing its sale id.\<close>

theorem load_from_file_one_line_item_per_sale:
  assumes "SalesManager_init s = (s', e)"
    and "\<forall>sl \<in> set (sales t). \<forall>(r, q) \<in> set (products_sold sl).
           map_of (products t) (universal_newlines (product_id (heap t ! r))) = Some r"
  shows "(\<forall>sl \<in> set (sales s'). length (products_sold sl) \<le> 1)
     \<and> sales (fst (SalesManager_init (SalesManager_save_to_file F t))) = concat (map reloaded (sales t))"
proof -
  have "\<forall>sl \<in> set (sales s'). length (products_sold sl) \<le> 1"
  proof (cases "sales_csv s")
    case None
    with assms(1) show ?thesis
      by (auto simp: SalesManager_init_def SalesManager_load_from_file_def)
  next
    case (Some body)
    show ?thesis
    proof (cases "DictReader sales_fieldnames body")
      case None
      with Some assms(1) show ?thesis
        by (auto simp: SalesManager_init_def SalesManager_load_from_file_def)
    next
      case (Some rows)
      with \<open>sales_csv s = Some body\<close> assms(1)
      have "load_sales rows (s\<lparr>sales := []\<rparr>) = (s', e)"
        by (simp add: SalesManager_init_def SalesManager_load_from_file_def)
      then show ?thesis by (rule load_sales_single) simp
    qed
  qed
  moreover have "sales (fst (SalesManager_init (SalesManager_save_to_file F t)))
      = concat (map reloaded (sales t))"
    using SalesManager_save_load [OF assms(2), of F] by simp
  ultimately show ?thesis by blast
qed


theorem load_from_file_one_line_item_per_sale_witness:
  "map (\<lambda>sl. length (products_sold sl)) (sales (fst (SalesManager_init stored_sales_shop))) = [1, 0]
   \<and> sales (fst (SalesManager_init (SalesManager_save_to_file fixture_floats two_item_shop)))
      = [\<lparr>sale_id = ''S1'', products_sold = [(0, 1)]\<rparr>, \<lparr>sale_id = ''S1'', products_sold = [(0, 2)]\<rparr>]"
proof -
  let ?t = "DictWriter sales_fieldnames
       [[''S1'', ''P1'', ''Widget'', ''4'', ''10.0''], [''S2'', ''P9'', ''Gadget'', ''1'', ''3.0'']]"
  let ?s' = "stored_sales_shop\<lparr>sales := [\<lparr>sale_id = ''S1'', products_sold = [(0, 4)]\<rparr>,
                                             \<lparr>sale_id = ''S2'', products_sold = []\<rparr>]\<rparr>"
  have a: "sales_csv (stored_sales_shop\<lparr>sales := []\<rparr>) = Some ?t" by (simp add: stored_sales_shop_def)
  have b: "SalesManager_init stored_sales_shop = (?s', None)"
    unfolding SalesManager_init_def SalesManager_load_from_file_def a option.case stored_sales_rows
    by (simp add: stored_sales_shop_def widget_shop_def cell_def Sale_def Sale_add_product_def
        int_of_str_4)
  have c: "\<forall>sl \<in> set (sales two_item_shop). \<forall>(r, q) \<in> set (products_sold sl).
           map_of (products two_item_shop) (universal_newlines (product_id (heap two_item_shop ! r)))
             = Some r"
    by (simp add: two_item_shop_def widget_shop_def)
  have d: "concat (map reloaded (sales two_item_shop))
      = [\<lparr>sale_id = ''S1'', products_sold = [(0, 1)]\<rparr>, \<lparr>sale_id = ''S1'', products_sold = [(0, 2)]\<rparr>]"
    by (simp add: two_item_shop_def reloaded_def)
  show ?thesis
    using load_from_file_one_line_item_per_sale [OF b c, of fixture_floats] by (simp add: b d)
qed

lemma reloaded_report:
  "universal_newlines (sale_id sl) = sale_id sl \<Longrightarrow>
     concat (map (Sale_to_dict h) (reloaded sl)) = Sale_to_dict h sl"
proof -
  assume "universal_newlines (sale_id sl) = sale_id sl"
  then have "concat (map (Sale_to_dict h)
        (map (\<lambda>item. \<lparr>sale_id = universal_newlines (sale_id sl), products_sold = [item]\<rparr>) items))
      = map (\<lambda>(r, q). (sale_id sl, product_id (h ! r), name (h ! r), q, price (h ! r) * of_int q)) items"
    for items
    by (induction items) (auto simp: Sale_to_dict_def)
  then show ?thesis by (simp add: reloaded_def Sale_to_dict_def)
qed

text \<open>Without carriage returns in the sale ids and product ids, saving the ledger and loading
  it against the catalog its line items refer to gives back the report.\<close>

lemma sales_report_round_trip:
  assumes "\<forall>sl \<in> set (sales s). CR \<notin> set (sale_id sl) \<and> (\<forall>(r, q) \<in> set (products_sold sl).
             CR \<notin> set (product_id (heap s ! r))
             \<and> map_of (products s) (product_id (heap s ! r)) = Some r)"
  shows "\<exists>s'. SalesManager_init (SalesManager_save_to_file F s) = (s', None)
           \<and> view_sales_report s' = view_sales_report s"
proof -
  have link: "\<forall>sl \<in> set (sales s). \<forall>(r, q) \<in> set (products_sold sl).
             map_of (products s) (universal_newlines (product_id (heap s ! r))) = Some r"
  proof (intro ballI, clarify)
    fix sl r q
    assume "sl \<in> set (sales s)" and "(r, q) \<in> set (products_sold sl)"
    with assms have "CR \<notin> set (product_id (heap s ! r))"
      and "map_of (products s) (product_id (heap s ! r)) = Some r"
      by auto
    then show "map_of (products s) (universal_newlines (product_id (heap s ! r))) = Some r"
      by (simp add: un_id)
  qed
  have "concat (map (Sale_to_dict (heap s)) (concat (map reloaded sls)))
      = concat (map (Sale_to_dict (heap s)) sls)"
    if "\<forall>sl \<in> set sls. CR \<notin> set (sale_id sl)" for sls
    using that by (induction sls) (auto simp: reloaded_report un_id)
  then have "concat (map (Sale_to_dict (heap s)) (concat (map reloaded (sales s))))
      = concat (map (Sale_to_dict (heap s)) (sales s))"
    using assms by blast
  then show ?thesis
    using SalesManager_save_load [OF link, of F]
    by (simp add: view_sales_report_def SalesManager_save_to_file_def)
qed

text \<open>C5 (the code as it runs): a sale id that holds a carriage return comes back from
  \<^verbatim>\<open>sales.csv\<close> with a line feed in its place, so the report after the reload differs
  from the report before the save.\<close>

theorem sales_report_reload_changes_sale_id:
  "view_sales_report cr_ledger_shop = [([CHR ''S'', CR, CHR ''1''], ''P1'', ''Widget'', 4, 10)]
   \<and> SalesManager_init (SalesManager_save_to_file F cr_ledger_shop)
       = ((SalesManager_save_to_file F cr_ledger_shop)
            \<lparr>sales := [\<lparr>sale_id = [CHR ''S'', LF, CHR ''1''], products_sold = [(0, 4)]\<rparr>]\<rparr>, None)
   \<and> view_sales_report (fst (SalesManager_init (SalesManager_save_to_file F cr_ledger_shop)))
       = [([CHR ''S'', LF, CHR ''1''], ''P1'', ''Widget'', 4, 10)]"
proof -
  have link: "\<forall>sl \<in> set (sales cr_ledger_shop). \<forall>(r, q) \<in> set (products_sold sl).
           map_of (products cr_ledger_shop) (universal_newlines (product_id (heap cr_ledger_shop ! r)))
             = Some r"
    by (simp add: cr_ledger_shop_def widget_shop_def)
  have "concat (map reloaded (sales cr_ledger_shop))
      = [\<lparr>sale_id = [CHR ''S'', LF, CHR ''1''], products_sold = [(0, 4)]\<rparr>]"
    by (simp add: cr_ledger_shop_def reloaded_def)
  then show ?thesis
    using SalesManager_save_load [OF link, of F]
    by (simp add: view_sales_report_def Sale_to_dict_def SalesManager_save_to_file_def
        cr_ledger_shop_def widget_shop_def)
qed

subsection \<open>Saving and loading the catalog\<close>

lemma inventory_rows_nonempty:
  "filter (\<lambda>r. r \<noteq> []) (map (map universal_newlines) (map (inventory_row F) ps))
   = map (\<lambda>p. map universal_newlines (inventory_row F p)) ps"
  by (induction ps) (auto simp: inventory_row_def)

lemma Inventory_save_init:
  "Inventory_init F (Inventory_save_to_file F s)
   = load_products F (map (\<lambda>(k, r). map universal_newlines (inventory_row F (heap s ! r))) (products s))
       ((Inventory_save_to_file F s)\<lparr>products := []\<rparr>)"
proof -
  have "map (\<lambda>p. map universal_newlines (inventory_row F p)) (map (\<lambda>(k, r). heap s ! r) (products s))
      = map (\<lambda>(k, r). map universal_newlines (inventory_row F (heap s ! r))) (products s)"
    by (induction "products s") (auto simp: case_prod_beta)
  moreover have "map (\<lambda>(k, r). inventory_row F (heap s ! r)) (products s)
      = map (inventory_row F) (map (\<lambda>(k, r). heap s ! r) (products s))"
    by (simp add: case_prod_beta comp_def)
  ultimately show ?thesis
    by (simp add: Inventory_init_def Inventory_load_from_file_def Inventory_save_to_file_def
        DictReader_DictWriter un_inventory_fieldnames inventory_rows_nonempty del: map_map)
qed

text \<open>C4 (the code as it runs): a product name that holds a carriage return comes back from
  \<^verbatim>\<open>inventory.csv\<close> with a line feed in its place, whatever the text form of the prices;
  the catalog loaded into a fresh \<^verbatim>\<open>Inventory\<close> is not the catalog that was saved.\<close>

theorem inventory_reload_changes_name:
  "view_inventory cr_name_shop = [(''P1'', ''Wid'' @ [CR] @ ''get'', 5 / 2, 10)]
   \<and> view_inventory (fst (Inventory_init F (Inventory_save_to_file F cr_name_shop)))
        \<noteq> view_inventory cr_name_shop
   \<and> view_inventory (fst (Inventory_init fixture_floats (Inventory_save_to_file fixture_floats cr_name_shop)))
        = [(''P1'', ''Wid'' @ [LF] @ ''get'', 5 / 2, 10)]"
proof -
  have before: "view_inventory cr_name_shop = [(''P1'', ''Wid'' @ [CR] @ ''get'', 5 / 2, 10)]"
    by (simp add: cr_name_shop_def view_inventory_def Product_to_dict_def)
  have after: "view_inventory (fst (Inventory_init G (Inventory_save_to_file G cr_name_shop)))
      = (case float_of_str G (universal_newlines (str_float G (5 / 2))) of
           None \<Rightarrow> [] | Some pr \<Rightarrow> [(''P1'', ''Wid'' @ [LF] @ ''get'', pr, 10)])" for G
    unfolding Inventory_save_init
    by (simp add: cr_name_shop_def Inventory_save_to_file_def inventory_row_def cell_def
        int_of_str_un_str_int new_Product_def view_inventory_def Product_to_dict_def
        split: option.splits)
  have "view_inventory (fst (Inventory_init F (Inventory_save_to_file F cr_name_shop)))
        \<noteq> view_inventory cr_name_shop"
    unfolding after before by (simp split: option.splits)
  moreover have "view_inventory (fst (Inventory_init fixture_floats
        (Inventory_save_to_file fixture_floats cr_name_shop)))
        = [(''P1'', ''Wid'' @ [LF] @ ''get'', 5 / 2, 10)]"
    unfolding after by (simp add: fixture_floats_def)
  ultimately show ?thesis using before by blast
qed


lemma dict_set_fresh: "k \<notin> fst ` set d \<Longrightarrow> dict_set d k v = d @ [(k, v)]"
  by (induction d) auto

lemma view_inventory_alloc:
  assumes "\<forall>(k, r) \<in> set (products s). r < length (heap s)"
  shows "view_inventory (s\<lparr>heap := heap s @ [p], products := products s @ [(k, length (heap s))]\<rparr>)
       = view_inventory s @ [Product_to_dict p]"
proof -
  have "map (\<lambda>(k, r). Product_to_dict ((heap s @ [p]) ! r)) (products s)
      = map (\<lambda>(k, r). Product_to_dict (heap s ! r)) (products s)"
    using assms by (intro map_cong) (auto simp: nth_append)
  then show ?thesis by (simp add: view_inventory_def)
qed

lemma load_products_catalog:
  assumes "distinct (map fst ps)"
    and "\<forall>(k, r) \<in> set ps. k \<notin> fst ` set (products s1)"
    and "\<forall>(k, r) \<in> set ps. product_id (h ! r) = k \<and> CR \<notin> set k \<and> CR \<notin> set (name (h ! r))
           \<and> float_of_str F (universal_newlines (str_float F (price (h ! r)))) = Some (price (h ! r))"
    and "\<forall>(k, r) \<in> set (products s1). r < length (heap s1)"
  shows "\<exists>s'. load_products F
            (map (\<lambda>(k, r). map universal_newlines (inventory_row F (h ! r))) ps) s1 = (s', None)
          \<and> view_inventory s' = view_inventory s1 @ map (\<lambda>(k, r). Product_to_dict (h ! r)) ps"
  using assms
proof (induction ps arbitrary: s1)
  case Nil
  then show ?case by simp
next
  case (Cons kr ps)
  obtain k r where kr: "kr = (k, r)" by (cases kr)
  let ?p = "h ! r"
  let ?s2 = "s1\<lparr>heap := heap s1 @ [?p], products := products s1 @ [(k, length (heap s1))]\<rparr>"
  from Cons.prems(3) kr have p: "product_id ?p = k" "CR \<notin> set k" "CR \<notin> set (name ?p)"
    "float_of_str F (universal_newlines (str_float F (price ?p))) = Some (price ?p)"
    by auto
  from Cons.prems(2) kr have fresh: "k \<notin> fst ` set (products s1)" by auto
  have same: "\<lparr>product_id = k, name = name ?p, price = price ?p, quantity = quantity ?p\<rparr> = ?p"
    using p(1) by simp
  have step: "load_products F
        (map (\<lambda>(k, r). map universal_newlines (inventory_row F (h ! r))) (kr # ps)) s1
      = load_products F (map (\<lambda>(k, r). map universal_newlines (inventory_row F (h ! r))) ps) ?s2"
    using p fresh kr
    by (simp add: inventory_row_def cell_def un_id int_of_str_un_str_int new_Product_def
        dict_set_fresh same)
  have "\<exists>s'. load_products F
            (map (\<lambda>(k, r). map universal_newlines (inventory_row F (h ! r))) ps) ?s2 = (s', None)
          \<and> view_inventory s' = view_inventory ?s2 @ map (\<lambda>(k, r). Product_to_dict (h ! r)) ps"
  proof (rule Cons.IH)
    show "distinct (map fst ps)" using Cons.prems(1) by simp
    show "\<forall>(k', r') \<in> set ps. k' \<notin> fst ` set (products ?s2)"
      using Cons.prems(1,2) kr by (auto simp: rev_image_eqI)
    show "\<forall>(k, r) \<in> set ps. product_id (h ! r) = k \<and> CR \<notin> set k \<and> CR \<notin> set (name (h ! r))
           \<and> float_of_str F (universal_newlines (str_float F (price (h ! r)))) = Some (price (h ! r))"
      using Cons.prems(3) by simp
    show "\<forall>(k, r) \<in> set (products ?s2). r < length (heap ?s2)"
      using Cons.prems(4) by (auto simp: less_Suc_eq)
  qed
  then show ?case
    unfolding step using view_inventory_alloc [OF Cons.prems(4), where p = "?p" and k = k] kr by auto
qed

text \<open>Without carriage returns in the ids and names, and with prices whose text form reads
  back as the price, saving the catalog and loading it into a fresh \<^verbatim>\<open>Inventory\<close> gives
  back the same ids, names, prices and quantities, in the same order.\<close>

lemma inventory_round_trip:
  assumes "wf_shop s" and "distinct (map fst (products s))"
    and "\<forall>(k, r) \<in> set (products s). CR \<notin> set k \<and> CR \<notin> set (name (heap s ! r))
           \<and> float_of_str F (universal_newlines (str_float F (price (heap s ! r))))
               = Some (price (heap s ! r))"
  shows "\<exists>s'. Inventory_init F (Inventory_save_to_file F s) = (s', None)
           \<and> view_inventory s' = view_inventory s"
proof -
  let ?s1 = "(Inventory_save_to_file F s)\<lparr>products := []\<rparr>"
  have "\<exists>s'. load_products F
            (map (\<lambda>(k, r). map universal_newlines (inventory_row F (heap s ! r))) (products s)) ?s1
              = (s', None)
          \<and> view_inventory s' = view_inventory ?s1 @ map (\<lambda>(k, r). Product_to_dict (heap s ! r)) (products s)"
  proof (rule load_products_catalog)
    show "distinct (map fst (products s))" by (rule assms(2))
    show "\<forall>(k, r) \<in> set (products s). k \<notin> fst ` set (products ?s1)" by simp
    show "\<forall>(k, r) \<in> set (products s). product_id (heap s ! r) = k \<and> CR \<notin> set k
           \<and> CR \<notin> set (name (heap s ! r))
           \<and> float_of_str F (universal_newlines (str_float F (price (heap s ! r))))
               = Some (price (heap s ! r))"
      using assms(1,3) by (auto simp: wf_shop_def)
    show "\<forall>(k, r) \<in> set (products ?s1). r < length (heap ?s1)" by simp
  qed
  then show ?thesis
    unfolding Inventory_save_init by (simp add: view_inventory_def)
qed

subsection \<open>Quantities are never negative\<close>

lemma shop_inv_sales [simp]: "shop_inv (s\<lparr>sales := x\<rparr>) = shop_inv s"
  by (simp add: shop_inv_def)

lemma shop_inv_sales_csv [simp]: "shop_inv (s\<lparr>sales_csv := x\<rparr>) = shop_inv s"
  by (simp add: shop_inv_def)

lemma shop_inv_empty: "shop_inv empty_shop"
  by (simp add: shop_inv_def empty_shop_def stored_ok_def)

lemma shop_inv_update_product: "shop_inv s \<Longrightarrow> shop_inv (fst (update_product pid n s))"
proof -
  assume inv: "shop_inv s"
  show ?thesis
  proof (cases "map_of (products s) pid")
    case None
    with inv show ?thesis by (simp add: update_product_def)
  next
    case (Some r)
    then have "(pid, r) \<in> set (products s)" by (rule map_of_SomeD)
    with inv have r: "r < length (heap s)" by (auto simp: shop_inv_def)
    with inv have q: "0 \<le> quantity (heap s ! r)" by (auto simp: shop_inv_def)
    show ?thesis
    proof (cases "n > quantity (heap s ! r)")
      case True
      with Some inv show ?thesis by (simp add: update_product_def update_quantity_def)
    next
      case False
      let ?p = "(heap s ! r)\<lparr>quantity := quantity (heap s ! r) - n\<rparr>"
      have "set ((heap s)[r := ?p]) \<subseteq> insert ?p (set (heap s))" by (rule set_update_subset_insert)
      moreover have "0 \<le> quantity ?p" using False by simp
      ultimately have "\<forall>p \<in> set ((heap s)[r := ?p]). 0 \<le> quantity p"
        using inv by (auto simp: shop_inv_def)
      with Some False inv show ?thesis
        by (simp add: update_product_def update_quantity_def shop_inv_def)
    qed
  qed
qed

lemma DictReader_saved_inventory:
  "DictReader inventory_fieldnames (DictWriter inventory_fieldnames (map (inventory_row F) ps))
   = Some (map (\<lambda>p. map universal_newlines (inventory_row F p)) ps)"
  by (simp add: DictReader_DictWriter un_inventory_fieldnames inventory_rows_nonempty del: map_map)

lemma stored_ok_saved:
  assumes "\<forall>p \<in> set ps. 0 \<le> quantity p"
  shows "stored_ok (Some (DictWriter inventory_fieldnames (map (inventory_row F) ps)))"
  unfolding stored_ok_def
proof (intro allI impI ballI)
  fix t rows row qc q
  assume t: "Some (DictWriter inventory_fieldnames (map (inventory_row F) ps)) = Some t"
    and rows: "DictReader inventory_fieldnames t = Some rows"
    and row: "row \<in> set rows" and qc: "cell row 3 = Some qc" and q: "int_of_str qc = Some q"
  from t rows have "rows = map (\<lambda>p. map universal_newlines (inventory_row F p)) ps"
    by (auto simp: DictReader_saved_inventory)
  with row obtain p where p: "p \<in> set ps" and "row = map universal_newlines (inventory_row F p)"
    by auto
  with qc have "qc = universal_newlines (str_int (quantity p))"
    by (simp add: inventory_row_def cell_def)
  with q have "q = quantity p" by (simp add: int_of_str_un_str_int)
  with p assms show "0 \<le> q" by simp
qed

lemma shop_inv_Inventory_save: "shop_inv s \<Longrightarrow> shop_inv (Inventory_save_to_file F s)"
proof -
  assume inv: "shop_inv s"
  have eq: "map (\<lambda>(k, r). inventory_row F (heap s ! r)) (products s)
      = map (inventory_row F) (map (\<lambda>(k, r). heap s ! r) (products s))"
    by (simp add: case_prod_beta comp_def)
  have "stored_ok (Some (DictWriter inventory_fieldnames
      (map (inventory_row F) (map (\<lambda>(k, r). heap s ! r) (products s)))))"
    by (rule stored_ok_saved) (use inv in \<open>auto simp: shop_inv_def\<close>)
  then have "stored_ok (inventory_csv (Inventory_save_to_file F s))"
    unfolding Inventory_save_to_file_def eq by simp
  moreover have "heap (Inventory_save_to_file F s) = heap s"
    "products (Inventory_save_to_file F s) = products s"
    by (simp_all add: Inventory_save_to_file_def)
  ultimately show ?thesis using inv by (simp add: shop_inv_def)
qed

lemma set_dict_set: "set (dict_set d k v) \<subseteq> insert (k, v) (set d)"
  by (induction d) (auto split: if_splits)

lemma shop_inv_alloc:
  assumes "shop_inv s" and "0 \<le> quantity p"
  shows "shop_inv (s\<lparr>heap := heap s @ [p], products := dict_set (products s) k (length (heap s))\<rparr>)"
proof -
  have "\<forall>(k', r) \<in> set (dict_set (products s) k (length (heap s))). r < length (heap s @ [p])"
    using set_dict_set [of "products s" k "length (heap s)"] assms(1)
    by (fastforce simp: shop_inv_def less_Suc_eq)
  with assms show ?thesis by (simp add: shop_inv_def)
qed

lemma shop_inv_add_product: "shop_inv s \<Longrightarrow> 0 \<le> q \<Longrightarrow> shop_inv (add_product F pid nm pr q s)"
proof -
  assume inv: "shop_inv s" and q: "0 \<le> q"
  let ?p = "\<lparr>product_id = pid, name = nm, price = pr, quantity = q\<rparr>"
  have "shop_inv (s\<lparr>heap := heap s @ [?p], products := dict_set (products s) pid (length (heap s))\<rparr>)"
    by (rule shop_inv_alloc [OF inv]) (simp add: q)
  then have "shop_inv (Inventory_save_to_file F
      (s\<lparr>heap := heap s @ [?p], products := dict_set (products s) pid (length (heap s))\<rparr>))"
    by (rule shop_inv_Inventory_save)
  then show ?thesis
    by (simp add: add_product_def new_Product_def Inventory_add_product_def)
qed

lemma shop_inv_fold_deduct: "shop_inv s \<Longrightarrow> shop_inv (fold deduct_item items s)"
proof (induction items arbitrary: s)
  case Nil
  then show ?case by simp
next
  case (Cons item items)
  then show ?case by (cases item) (simp add: deduct_item_def shop_inv_update_product)
qed

lemma shop_inv_record_sale: "shop_inv s \<Longrightarrow> shop_inv (record_sale F sl s)"
  by (simp add: record_sale_def Let_def SalesManager_save_to_file_def shop_inv_fold_deduct)

lemma shop_inv_sell_items: "shop_inv s \<Longrightarrow> shop_inv (snd (sell_items items sl s))"
proof (induction items sl s rule: sell_items.induct)
  case (1 sl s)
  then show ?case by simp
next
  case (2 pid q items sl s)
  show ?case
  proof (cases "map ascii_lower pid = ''done'' \<or> map_of (products s) pid = None")
    case True
    with 2 show ?thesis by (auto split: option.splits)
  next
    case False
    then obtain r where r: "map_of (products s) pid = Some r" by auto
    obtain s' ok where up: "update_product pid q s = (s', ok)" by (cases "update_product pid q s")
    with "2.prems" have "shop_inv s'" using shop_inv_update_product [of s pid q] by simp
    with 2 False r up show ?thesis by (cases ok) auto
  qed
qed

lemma shop_inv_process_sale: "shop_inv s \<Longrightarrow> shop_inv (process_sale F sid items s)"
  using shop_inv_sell_items [of s items "Sale sid"]
  by (cases "sell_items items (Sale sid) s") (simp add: process_sale_def shop_inv_record_sale)

lemma shop_inv_load_products:
  assumes "shop_inv s"
    and "\<forall>row \<in> set rows. \<forall>qc q. cell row 3 = Some qc \<longrightarrow> int_of_str qc = Some q \<longrightarrow> 0 \<le> q"
  shows "shop_inv (fst (load_products F rows s))"
  using assms
proof (induction rows arbitrary: s)
  case Nil
  then show ?case by simp
next
  case (Cons row rows)
  show ?case
  proof (cases "load_products F (row # rows) s = (s, Some TypeError)
      \<or> load_products F (row # rows) s = (s, Some ValueError)")
    case True
    with Cons.prems(1) show ?thesis by auto
  next
    case False
    then obtain pc pr qc q where c: "cell row 2 = Some pc" "float_of_str F pc = Some pr"
      "cell row 3 = Some qc" "int_of_str qc = Some q"
      by (auto split: option.splits)
    let ?p = "\<lparr>product_id = row ! 0, name = row ! 1, price = pr, quantity = q\<rparr>"
    let ?s1 = "s\<lparr>heap := heap s @ [?p], products := dict_set (products s) (row ! 0) (length (heap s))\<rparr>"
    from c Cons.prems(2) have "0 \<le> q" by auto
    then have "shop_inv ?s1" using shop_inv_alloc [OF Cons.prems(1), of ?p "row ! 0"] by simp
    then have "shop_inv (fst (load_products F rows ?s1))"
      by (rule Cons.IH) (use Cons.prems(2) in auto)
    with c show ?thesis by (simp add: new_Product_def)
  qed
qed

lemma shop_inv_Inventory_load: "shop_inv s \<Longrightarrow> shop_inv (fst (Inventory_load_from_file F s))"
proof -
  assume inv: "shop_inv s"
  show ?thesis
  proof (cases "inventory_csv s")
    case None
    with inv show ?thesis by (simp add: Inventory_load_from_file_def)
  next
    case (Some t)
    show ?thesis
    proof (cases "DictReader inventory_fieldnames t")
      case None
      with Some inv show ?thesis by (simp add: Inventory_load_from_file_def)
    next
      case (Some rows)
      with \<open>inventory_csv s = Some t\<close> inv
      have "\<forall>row \<in> set rows. \<forall>qc q. cell row 3 = Some qc \<longrightarrow> int_of_str qc = Some q \<longrightarrow> 0 \<le> q"
        unfolding shop_inv_def stored_ok_def by blast
      with inv have "shop_inv (fst (load_products F rows s))" by (rule shop_inv_load_products)
      with Some \<open>inventory_csv s = Some t\<close> show ?thesis by (simp add: Inventory_load_from_file_def)
    qed
  qed
qed

lemma shop_inv_SalesManager_load: "shop_inv s \<Longrightarrow> shop_inv (fst (SalesManager_load_from_file s))"
proof -
  assume inv: "shop_inv s"
  have "shop_inv (fst (load_sales rows s))" for rows
    using load_sales_keeps [of rows s "fst (load_sales rows s)" "snd (load_sales rows s)"] inv
    by (simp add: shop_inv_def)
  with inv show ?thesis
    by (simp add: SalesManager_load_from_file_def split: option.splits)
qed

lemma shop_inv_forget: "shop_inv s \<Longrightarrow> shop_inv (s\<lparr>products := []\<rparr>)"
  by (simp add: shop_inv_def)

lemma shop_inv_ShopSystem_init: "shop_inv s \<Longrightarrow> shop_inv (fst (ShopSystem_init F s))"
proof -
  assume inv: "shop_inv s"
  obtain s1 e where i: "Inventory_init F s = (s1, e)" by (cases "Inventory_init F s")
  have s1: "shop_inv s1"
    using shop_inv_Inventory_load [OF shop_inv_forget [OF inv], of F] i
    by (simp add: Inventory_init_def)
  show ?thesis
  proof (cases e)
    case None
    with i s1 show ?thesis
      using shop_inv_SalesManager_load [of "s1\<lparr>sales := []\<rparr>"]
      by (simp add: ShopSystem_init_def SalesManager_init_def)
  next
    case (Some err)
    with i s1 show ?thesis by (simp add: ShopSystem_init_def)
  qed
qed

lemma shop_inv_exec: "shop_inv s \<Longrightarrow> allowed op \<Longrightarrow> shop_inv (exec F op s)"
  by (cases op)
    (simp_all add: shop_inv_add_product shop_inv_update_product shop_inv_record_sale
      shop_inv_process_sale shop_inv_Inventory_save SalesManager_save_to_file_def
      shop_inv_Inventory_load shop_inv_SalesManager_load shop_inv_ShopSystem_init)

lemma reachable_shop_inv: "reachable F s \<Longrightarrow> shop_inv s"
  by (induction rule: reachable.induct) (simp_all add: shop_inv_empty shop_inv_exec)

text \<open>C8: in every state the shop reaches, no product has a negative quantity, and after any
  further operation (adding a product with a non-negative quantity, a deduction of any amount,
  recording or processing a sale, listing, reporting, saving, loading, restarting) still no
  product has one, in the store of products and in the inventory view.\<close>

theorem quantity_never_negative:
  assumes "reachable F s" and "allowed op"
  shows "(\<forall>p \<in> set (heap s). 0 \<le> quantity p)
     \<and> (\<forall>p \<in> set (heap (exec F op s)). 0 \<le> quantity p)
     \<and> (\<forall>(pid, nm, pr, q) \<in> set (view_inventory (exec F op s)). 0 \<le> q)"
proof -
  from assms have a: "shop_inv s" and b: "shop_inv (exec F op s)"
    by (simp_all add: reachable_shop_inv shop_inv_exec)
  have "\<forall>(pid, nm, pr, q) \<in> set (view_inventory t). 0 \<le> q" if "shop_inv t" for t
    using that by (auto simp: shop_inv_def view_inventory_def Product_to_dict_def)
  with a b show ?thesis by (simp add: shop_inv_def)
qed

theorem quantity_never_negative_witness:
  "list_all (\<lambda>p. 0 \<le> quantity p)
     (heap (exec fixture_floats (ProcessSale ''S1'' [(''P1'', 4)])
        (exec fixture_floats (AddProduct ''P1'' ''Widget'' (5 / 2) 10) empty_shop)))"
proof -
  have "reachable fixture_floats
      (exec fixture_floats (AddProduct ''P1'' ''Widget'' (5 / 2) 10) empty_shop)"
    by (rule reachable.step [OF reachable.start]) simp
  moreover have "allowed (ProcessSale ''S1'' [(''P1'', 4)])" by simp
  ultimately show ?thesis
    using quantity_never_negative [of fixture_floats
        "exec fixture_floats (AddProduct ''P1'' ''Widget'' (5 / 2) 10) empty_shop"
        "ProcessSale ''S1'' [(''P1'', 4)]"]
    by (simp add: list_all_iff)
qed

subsection \<open>Reachable catalogs are well-formed\<close>

lemma catalog_ok_sales [simp]: "catalog_ok (s\<lparr>sales := x\<rparr>) = catalog_ok s"
  by (simp add: catalog_ok_def wf_shop_def)

lemma catalog_ok_sales_csv [simp]: "catalog_ok (s\<lparr>sales_csv := x\<rparr>) = catalog_ok s"
  by (simp add: catalog_ok_def wf_shop_def)

lemma catalog_ok_inventory_csv [simp]: "catalog_ok (s\<lparr>inventory_csv := x\<rparr>) = catalog_ok s"
  by (simp add: catalog_ok_def wf_shop_def)

lemma catalog_ok_update_product: "catalog_ok s \<Longrightarrow> catalog_ok (fst (update_product pid n s))"
proof -
  assume ok: "catalog_ok s"
  have "product_id (((heap s)[r := (heap s ! r)\<lparr>quantity := v\<rparr>]) ! r') = product_id (heap s ! r')"
    if "r' < length (heap s)" for r r' v
    using that by (cases "r' = r") simp_all
  with ok show ?thesis
    by (auto simp: catalog_ok_def wf_shop_def update_product_def update_quantity_def
        split: option.splits)
qed

lemma map_fst_dict_set:
  "map fst (dict_set d k v) = (if k \<in> fst ` set d then map fst d else map fst d @ [k])"
  by (induction d) (auto simp: rev_image_eqI)

lemma catalog_ok_alloc:
  assumes "catalog_ok s" and "product_id p = k"
  shows "catalog_ok (s\<lparr>heap := heap s @ [p], products := dict_set (products s) k (length (heap s))\<rparr>)"
proof -
  have "r < length (heap s @ [p]) \<and> product_id ((heap s @ [p]) ! r) = k'"
    if "(k', r) \<in> set (dict_set (products s) k (length (heap s)))" for k' r
  proof (cases "(k', r) = (k, length (heap s))")
    case True
    with assms(2) show ?thesis by simp
  next
    case False
    with that set_dict_set [of "products s" k "length (heap s)"] have "(k', r) \<in> set (products s)"
      by auto
    with assms(1) show ?thesis by (auto simp: catalog_ok_def wf_shop_def nth_append)
  qed
  moreover have "distinct (map fst (dict_set (products s) k (length (heap s))))"
    using assms(1) by (simp add: map_fst_dict_set catalog_ok_def)
  ultimately show ?thesis by (auto simp: catalog_ok_def wf_shop_def)
qed

lemma catalog_ok_add_product: "catalog_ok s \<Longrightarrow> catalog_ok (add_product F pid nm pr q s)"
  using catalog_ok_alloc [of s "\<lparr>product_id = pid, name = nm, price = pr, quantity = q\<rparr>" pid]
  by (simp add: add_product_def new_Product_def Inventory_add_product_def Inventory_save_to_file_def)

lemma catalog_ok_fold_deduct: "catalog_ok s \<Longrightarrow> catalog_ok (fold deduct_item items s)"
proof (induction items arbitrary: s)
  case Nil
  then show ?case by simp
next
  case (Cons item items)
  then show ?case by (cases item) (simp add: deduct_item_def catalog_ok_update_product)
qed

lemma catalog_ok_record_sale: "catalog_ok s \<Longrightarrow> catalog_ok (record_sale F sl s)"
  by (simp add: record_sale_def Let_def SalesManager_save_to_file_def catalog_ok_fold_deduct)

lemma catalog_ok_sell_items: "catalog_ok s \<Longrightarrow> catalog_ok (snd (sell_items items sl s))"
proof (induction items sl s rule: sell_items.induct)
  case (1 sl s)
  then show ?case by simp
next
  case (2 pid q items sl s)
  show ?case
  proof (cases "map ascii_lower pid = ''done'' \<or> map_of (products s) pid = None")
    case True
    with 2 show ?thesis by (auto split: option.splits)
  next
    case False
    then obtain r where r: "map_of (products s) pid = Some r" by auto
    obtain s' ok where up: "update_product pid q s = (s', ok)" by (cases "update_product pid q s")
    with "2.prems" have "catalog_ok s'" using catalog_ok_update_product [of s pid q] by simp
    with 2 False r up show ?thesis by (cases ok) auto
  qed
qed

lemma catalog_ok_process_sale: "catalog_ok s \<Longrightarrow> catalog_ok (process_sale F sid items s)"
  using catalog_ok_sell_items [of s items "Sale sid"]
  by (cases "sell_items items (Sale sid) s") (simp add: process_sale_def catalog_ok_record_sale)

lemma catalog_ok_load_products: "catalog_ok s \<Longrightarrow> catalog_ok (fst (load_products F rows s))"
proof (induction rows arbitrary: s)
  case Nil
  then show ?case by simp
next
  case (Cons row rows)
  show ?case
  proof (cases "load_products F (row # rows) s = (s, Some TypeError)
      \<or> load_products F (row # rows) s = (s, Some ValueError)")
    case True
    with Cons.prems show ?thesis by auto
  next
    case False
    then obtain pc pr qc q where c: "cell row 2 = Some pc" "float_of_str F pc = Some pr"
      "cell row 3 = Some qc" "int_of_str qc = Some q"
      by (auto split: option.splits)
    let ?p = "\<lparr>product_id = row ! 0, name = row ! 1, price = pr, quantity = q\<rparr>"
    let ?s1 = "s\<lparr>heap := heap s @ [?p], products := dict_set (products s) (row ! 0) (length (heap s))\<rparr>"
    have "catalog_ok ?s1" by (rule catalog_ok_alloc [OF Cons.prems]) simp
    then have "catalog_ok (fst (load_products F rows ?s1))" by (rule Cons.IH)
    with c show ?thesis by (simp add: new_Product_def)
  qed
qed

lemma catalog_ok_Inventory_load: "catalog_ok s \<Longrightarrow> catalog_ok (fst (Inventory_load_from_file F s))"
  by (simp add: Inventory_load_from_file_def catalog_ok_load_products split: option.splits)

lemma catalog_ok_SalesManager_load:
  "catalog_ok s \<Longrightarrow> catalog_ok (fst (SalesManager_load_from_file s))"
proof -
  assume ok: "catalog_ok s"
  have "catalog_ok (fst (load_sales rows s))" for rows
    using load_sales_keeps [of rows s "fst (load_sales rows s)" "snd (load_sales rows s)"] ok
    by (simp add: catalog_ok_def wf_shop_def)
  with ok show ?thesis
    by (simp add: SalesManager_load_from_file_def split: option.splits)
qed

lemma catalog_ok_ShopSystem_init: "catalog_ok (fst (ShopSystem_init F s))"
proof -
  have start: "catalog_ok (s\<lparr>products := []\<rparr>)" by (simp add: catalog_ok_def wf_shop_def)
  obtain s1 e where i: "Inventory_init F s = (s1, e)" by (cases "Inventory_init F s")
  have s1: "catalog_ok s1"
    using catalog_ok_Inventory_load [OF start, of F] i by (simp add: Inventory_init_def)
  show ?thesis
  proof (cases e)
    case None
    with i s1 show ?thesis
      using catalog_ok_SalesManager_load [of "s1\<lparr>sales := []\<rparr>"]
      by (simp add: ShopSystem_init_def SalesManager_init_def)
  next
    case (Some err)
    with i s1 show ?thesis by (simp add: ShopSystem_init_def)
  qed
qed

text \<open>Every reachable state is well-formed, and the keys of its catalog are distinct.\<close>

lemma reachable_catalog_ok: "reachable F s \<Longrightarrow> wf_shop s \<and> distinct (map fst (products s))"
proof -
  assume r: "reachable F s"
  have step: "catalog_ok (exec F op t)" if "catalog_ok t" for op t
    using that
    by (cases op)
      (simp_all add: catalog_ok_add_product catalog_ok_update_product catalog_ok_record_sale
        catalog_ok_process_sale Inventory_save_to_file_def SalesManager_save_to_file_def
        catalog_ok_Inventory_load catalog_ok_SalesManager_load catalog_ok_ShopSystem_init)
  have start: "catalog_ok empty_shop" by (simp add: catalog_ok_def wf_shop_def empty_shop_def)
  from r have "catalog_ok s"
    by (induction rule: reachable.induct) (simp_all add: start step)
  then show ?thesis by (simp add: catalog_ok_def)
qed

end
